theory Spec2Isabelle
  imports Complex_Main
begin

section \<open>Overview\<close>

text \<open>
  A shallow embedding of the frame extraction component \<open>App\<close>. The sources hold three
  versions of it. \<open>src/unnamed/part_000\<close> holds two: the first has the frame rate
  setting \<open>framepSecond\<close>, the loop ceiling 600 and new frames unselected; the second has
  no rate setting, the ceiling 60 and new frames selected. \<open>src/index.tsx\<close> is an earlier
  version without a loop ceiling and without timeouts on seeks, and with an effect that
  revokes the object URLs of the frames each time the \<open>frames\<close> array is replaced. The names without a suffix
  below are those of the first version; \<open>_v2\<close> marks the second and \<open>_index\<close> the one of
  \<open>src/index.tsx\<close>.

  The asynchronous handlers are modelled as functions on the component's state, run one
  after the other. What the browser does (metadata, canvas context, the outcome of each
  seek and capture) is an argument of the run.
\<close>

section \<open>JavaScript numbers\<close>

text \<open>
  The program computes with JavaScript numbers. They are modelled as the reals extended
  by the three special values of IEEE 754 that the code tests for (\<open>NaN\<close>,
  \<open>+Infinity\<close>, \<open>-Infinity\<close>). Of the rounding of binary64 the underflow to zero of
  products and quotients is modelled, because it decides whether a planned interval is
  positive. The rounding of other finite results to 53 bits, the overflow of finite
  results to \<open>Infinity\<close> and the sign of zero are not modelled (a division by zero yields
  the result for \<open>+0\<close>); sums are exact.
\<close>

datatype jsnum = NaN | PosInf | NegInf | Fin real

text \<open>\<open>Number.isFinite\<close>.\<close>

fun isFinite :: "jsnum \<Rightarrow> bool" where
  "isFinite (Fin x) = True"
| "isFinite NaN = False"
| "isFinite PosInf = False"
| "isFinite NegInf = False"

text \<open>\<open>ToBoolean\<close> of a number, as used by \<open>||\<close> and \<open>if\<close>.\<close>

fun truthy :: "jsnum \<Rightarrow> bool" where
  "truthy NaN = False"
| "truthy (Fin x) = (x \<noteq> 0)"
| "truthy PosInf = True"
| "truthy NegInf = True"

text \<open>The comparisons \<open><\<close>, \<open><=\<close> and \<open>>\<close>: false whenever an operand is \<open>NaN\<close>.\<close>

fun js_lt :: "jsnum \<Rightarrow> jsnum \<Rightarrow> bool" where
  "js_lt NaN b = False"
| "js_lt PosInf b = False"
| "js_lt NegInf NaN = False"
| "js_lt NegInf NegInf = False"
| "js_lt NegInf PosInf = True"
| "js_lt NegInf (Fin b) = True"
| "js_lt (Fin a) NaN = False"
| "js_lt (Fin a) NegInf = False"
| "js_lt (Fin a) PosInf = True"
| "js_lt (Fin a) (Fin b) = (a < b)"

fun js_le :: "jsnum \<Rightarrow> jsnum \<Rightarrow> bool" where
  "js_le NaN b = False"
| "js_le PosInf NaN = False"
| "js_le PosInf PosInf = True"
| "js_le PosInf NegInf = False"
| "js_le PosInf (Fin b) = False"
| "js_le NegInf NaN = False"
| "js_le NegInf PosInf = True"
| "js_le NegInf NegInf = True"
| "js_le NegInf (Fin b) = True"
| "js_le (Fin a) NaN = False"
| "js_le (Fin a) NegInf = False"
| "js_le (Fin a) PosInf = True"
| "js_le (Fin a) (Fin b) = (a \<le> b)"

definition js_gt :: "jsnum \<Rightarrow> jsnum \<Rightarrow> bool" where
  "js_gt a b = js_lt b a"

text \<open>The operators \<open>+\<close>, \<open>*\<close> and \<open>/\<close>.\<close>

fun js_add :: "jsnum \<Rightarrow> jsnum \<Rightarrow> jsnum" where
  "js_add NaN b = NaN"
| "js_add PosInf NaN = NaN"
| "js_add PosInf NegInf = NaN"
| "js_add PosInf PosInf = PosInf"
| "js_add PosInf (Fin b) = PosInf"
| "js_add NegInf NaN = NaN"
| "js_add NegInf PosInf = NaN"
| "js_add NegInf NegInf = NegInf"
| "js_add NegInf (Fin b) = NegInf"
| "js_add (Fin a) NaN = NaN"
| "js_add (Fin a) PosInf = PosInf"
| "js_add (Fin a) NegInf = NegInf"
| "js_add (Fin a) (Fin b) = Fin (a + b)"

text \<open>The smallest positive double, \<open>Number.MIN_VALUE\<close> = \<open>5e-324\<close>.\<close>

definition min_subnormal :: real where
  "min_subnormal = 1 / 2 ^ 1074"

text \<open>
  Rounding to nearest turns an exact product or quotient into zero exactly when its
  magnitude is at most half of \<open>min_subnormal\<close> (a tie goes to the even neighbour, which
  is zero).
\<close>

definition underflow :: "real \<Rightarrow> real" where
  "underflow x = (if \<bar>x\<bar> \<le> min_subnormal / 2 then 0 else x)"

fun js_mul :: "jsnum \<Rightarrow> jsnum \<Rightarrow> jsnum" where
  "js_mul NaN b = NaN"
| "js_mul PosInf NaN = NaN"
| "js_mul PosInf PosInf = PosInf"
| "js_mul PosInf NegInf = NegInf"
| "js_mul PosInf (Fin b) = (if b = 0 then NaN else if 0 < b then PosInf else NegInf)"
| "js_mul NegInf NaN = NaN"
| "js_mul NegInf PosInf = NegInf"
| "js_mul NegInf NegInf = PosInf"
| "js_mul NegInf (Fin b) = (if b = 0 then NaN else if 0 < b then NegInf else PosInf)"
| "js_mul (Fin a) NaN = NaN"
| "js_mul (Fin a) PosInf = (if a = 0 then NaN else if 0 < a then PosInf else NegInf)"
| "js_mul (Fin a) NegInf = (if a = 0 then NaN else if 0 < a then NegInf else PosInf)"
| "js_mul (Fin a) (Fin b) = Fin (underflow (a * b))"

fun js_div :: "jsnum \<Rightarrow> jsnum \<Rightarrow> jsnum" where
  "js_div NaN b = NaN"
| "js_div PosInf NaN = NaN"
| "js_div PosInf PosInf = NaN"
| "js_div PosInf NegInf = NaN"
| "js_div PosInf (Fin b) = (if 0 \<le> b then PosInf else NegInf)"
| "js_div NegInf NaN = NaN"
| "js_div NegInf PosInf = NaN"
| "js_div NegInf NegInf = NaN"
| "js_div NegInf (Fin b) = (if 0 \<le> b then NegInf else PosInf)"
| "js_div (Fin a) NaN = NaN"
| "js_div (Fin a) PosInf = Fin 0"
| "js_div (Fin a) NegInf = Fin 0"
| "js_div (Fin a) (Fin b) =
     (if b \<noteq> 0 then Fin (underflow (a / b))
      else if a = 0 then NaN else if 0 < a then PosInf else NegInf)"

text \<open>\<open>Math.max\<close> and \<open>Math.min\<close> of two arguments: \<open>NaN\<close> if either is \<open>NaN\<close>.\<close>

definition js_max :: "jsnum \<Rightarrow> jsnum \<Rightarrow> jsnum" where
  "js_max a b = (if a = NaN \<or> b = NaN then NaN else if js_lt a b then b else a)"

definition js_min :: "jsnum \<Rightarrow> jsnum \<Rightarrow> jsnum" where
  "js_min a b = (if a = NaN \<or> b = NaN then NaN else if js_lt b a then b else a)"

text \<open>\<open>Math.round\<close>: the nearest integer, a tie going towards \<open>+Infinity\<close>.\<close>

definition js_round :: "jsnum \<Rightarrow> jsnum" where
  "js_round a = (case a of Fin x \<Rightarrow> Fin (of_int \<lfloor>x + 1 / 2\<rfloor>) | _ \<Rightarrow> a)"

text \<open>\<open>a || b\<close> on numbers.\<close>

definition js_or :: "jsnum \<Rightarrow> jsnum \<Rightarrow> jsnum" where
  "js_or a b = (if truthy a then a else b)"

section \<open>Strings built from numbers\<close>

definition digit_char :: "nat \<Rightarrow> char" where
  "digit_char d = ''0123456789'' ! (d mod 10)"

text \<open>\<open>Number.prototype.toString\<close> on a non-negative integer.\<close>

function toString :: "nat \<Rightarrow> string" where
  "toString n = (if n < 10 then [digit_char n] else toString (n div 10) @ [digit_char (n mod 10)])"
  by pat_completeness auto
termination
  by (relation "measure (\<lambda>n. n)") auto

text \<open>\<open>String.prototype.padStart\<close>.\<close>

definition padStart :: "nat \<Rightarrow> char \<Rightarrow> string \<Rightarrow> string" where
  "padStart w c s = replicate (w - length s) c @ s"

text \<open>
  \<open>Number.prototype.toFixed(2)\<close>: the integer \<open>n\<close> nearest to \<open>100 * x\<close> (the larger
  one on a tie), printed with a point before its last two digits. Below \<open>10^21\<close> in
  magnitude, which is where the timestamps of this program lie; beyond it ECMAScript
  switches to exponent notation, which is not modelled.
\<close>

definition toFixed2_nonneg :: "real \<Rightarrow> string" where
  "toFixed2_nonneg x =
     (let n = nat \<lfloor>x * 100 + 1 / 2\<rfloor>
      in toString (n div 100) @ ''.'' @ padStart 2 (CHR ''0'') (toString (n mod 100)))"

definition toFixed2 :: "jsnum \<Rightarrow> string" where
  "toFixed2 a =
     (case a of
        NaN \<Rightarrow> ''NaN''
      | PosInf \<Rightarrow> ''Infinity''
      | NegInf \<Rightarrow> ''-Infinity''
      | Fin x \<Rightarrow> if x < 0 then ''-'' @ toFixed2_nonneg (- x) else toFixed2_nonneg x)"

section \<open>Frames and the application state\<close>

type_synonym Blob = "nat list"

text \<open>
  \<open>interface PortfolioFrame\<close>. The object URL of a frame (its display handle) is the
  number that \<open>URL.createObjectURL\<close> handed out.
\<close>

record PortfolioFrame =
  frame_id :: string
  url :: nat
  blob :: Blob
  selected :: bool
  timestamp :: jsnum

datatype alert =
  ErrMetadata | ErrCanvas | ErrGeneral | ErrInvalid | ErrNoSel | ErrZip | WarnBadVideo

text \<open>
  The React state of \<open>App\<close>, with three observation fields added: \<open>progress_reports\<close>
  lists every value passed to \<open>setProgress\<close>, \<open>created\<close> counts the object URLs of
  frames handed out so far (the next one is \<open>created\<close> itself) and \<open>revoked\<close> lists
  the frame URLs passed to \<open>URL.revokeObjectURL\<close>, in order. \<open>framesRef.current\<close> is
  re-synchronised with \<open>frames\<close> after every render and is read as \<open>frames\<close>.
\<close>

record app_state =
  videoFile :: bool
  isProcessing :: bool
  frames :: "PortfolioFrame list"
  expandedFrame :: "PortfolioFrame option"
  framepSecond :: jsnum
  progress_reports :: "jsnum list"
  created :: nat
  revoked :: "nat list"
  alerts :: "alert list"

section \<open>The video processing engine\<close>

text \<open>
  What the browser does in one sampling step, after the seek has been requested. The
  wait for \<open>seeked\<close> ends by the event, by the 2 second timeout or by a caught error, and
  the loop goes on in all three cases; then \<open>drawImage\<close> may throw (\<open>Thrown\<close>, caught by
  the outer \<open>try\<close>), and \<open>canvas.toBlob\<close> yields a blob or \<open>null\<close>.
\<close>

datatype step_outcome = Captured Blob | NoBlob | Thrown

text \<open>
  What a run observes of the video: whether the metadata arrived (before an error and
  before the 10 second timeout), the reported duration, whether the canvas gave a 2d
  context, and what happens at the \<open>n\<close>-th sampling step.
\<close>

record 'o video_source =
  metadata_loaded :: bool
  video_duration :: jsnum
  context_2d :: bool
  decoder :: "nat \<Rightarrow> 'o"

text \<open>The local variables of the sampling loop.\<close>

record loop_state =
  currentTime :: jsnum
  loopCount :: nat
  newFrames :: "PortfolioFrame list"
  reported :: "jsnum list"
  next_url :: nat
  thrown :: bool

definition MAX_LOOPS :: nat where
  "MAX_LOOPS = 600"

text \<open>The ceiling of the second version.\<close>

definition MAX_LOOPS_v2 :: nat where
  "MAX_LOOPS_v2 = 60"

text \<open>
  \<open>while (currentTime < duration && loopCount < MAX_LOOPS) { ... }\<close>. The parameters are
  the ceiling, the browser's behaviour at each step, the \<open>selected\<close> flag given to new
  frames, \<open>duration\<close> and \<open>interval\<close>.
\<close>

function sampling_loop ::
  "nat \<Rightarrow> (nat \<Rightarrow> step_outcome) \<Rightarrow> bool \<Rightarrow> jsnum \<Rightarrow> jsnum \<Rightarrow> loop_state \<Rightarrow> loop_state"
where
  "sampling_loop M dec sel duration interval s =
     (if js_lt (currentTime s) duration \<and> loopCount s < M then
        let n = Suc (loopCount s);
            timeProgress = js_mul (js_div (currentTime s) duration) (Fin 100);
            loopProgress = js_mul (js_div (Fin (real n)) (Fin (real M))) (Fin 100);
            s1 = s\<lparr>loopCount := n,
                   reported := reported s @
                     [js_min (Fin 99) (js_round (js_max timeProgress loopProgress))]\<rparr>
        in case dec n of
             Thrown \<Rightarrow> s1\<lparr>thrown := True\<rparr>
           | NoBlob \<Rightarrow>
               sampling_loop M dec sel duration interval
                 (s1\<lparr>currentTime := js_add (currentTime s) interval\<rparr>)
           | Captured b \<Rightarrow>
               sampling_loop M dec sel duration interval
                 (s1\<lparr>newFrames := newFrames s @
                        [\<lparr>frame_id = ''frame-'' @ toFixed2 (currentTime s),
                          url = next_url s,
                          blob = b,
                          selected = sel,
                          timestamp = currentTime s\<rparr>],
                      next_url := Suc (next_url s),
                      currentTime := js_add (currentTime s) interval\<rparr>)
      else s)"
  by pat_completeness auto
termination
  by (relation "measure (\<lambda>(M, dec, sel, duration, interval, s). M - loopCount s)") auto

declare sampling_loop.simps [simp del]

text \<open>The state in which the loop is entered.\<close>

definition loop_init :: "jsnum \<Rightarrow> nat \<Rightarrow> loop_state" where
  "loop_init start u =
     \<lparr>currentTime = start, loopCount = 0, newFrames = [], reported = [],
      next_url = u, thrown = False\<rparr>"

text \<open>
  \<open>let duration = video.duration; if (!Number.isFinite(duration) || duration <= 0) duration = 1;\<close>
\<close>

definition sanitize_duration :: "jsnum \<Rightarrow> jsnum" where
  "sanitize_duration d = (if \<not> isFinite d \<or> js_le d (Fin 0) then Fin 1 else d)"

definition targetFrameCount :: jsnum where
  "targetFrameCount = Fin 30"

definition maxFrameCount :: jsnum where
  "maxFrameCount = Fin 600"

text \<open>The interval between two target timestamps, from \<open>framepSecond\<close> and \<open>duration\<close>.\<close>

definition plan_interval :: "jsnum \<Rightarrow> jsnum \<Rightarrow> jsnum" where
  "plan_interval fps duration =
     (if js_gt fps (Fin 0) \<or> truthy fps
      then js_max (js_div (Fin 1) fps) (js_div duration maxFrameCount)
      else js_max (Fin (1 / 10)) (js_div duration targetFrameCount))"

text \<open>\<open>let currentTime = Math.min(0.1, duration / 10);\<close>\<close>

definition plan_start :: "jsnum \<Rightarrow> jsnum" where
  "plan_start duration = js_min (Fin (1 / 10)) (js_div duration (Fin 10))"

text \<open>
  \<open>processVideo\<close> of the first version. A failure to load the
  metadata or to create the canvas context ends the run before the loop; otherwise the
  \<open>finally\<close> block commits the frames collected so far and reports 100.
\<close>

definition processVideo :: "step_outcome video_source \<Rightarrow> app_state \<Rightarrow> app_state" where
  "processVideo v s0 =
     (let s = s0\<lparr>isProcessing := True,
                 progress_reports := progress_reports s0 @ [Fin 0],
                 frames := []\<rparr>
      in if \<not> metadata_loaded v
         then s\<lparr>alerts := alerts s @ [ErrMetadata], isProcessing := False\<rparr>
         else
           let duration = sanitize_duration (video_duration v);
               interval = plan_interval (framepSecond s) duration
           in if \<not> context_2d v
              then s\<lparr>isProcessing := False, alerts := alerts s @ [ErrCanvas]\<rparr>
              else
                let l = sampling_loop MAX_LOOPS (decoder v) False duration interval
                          (loop_init (plan_start duration) (created s))
                in s\<lparr>alerts := alerts s @ (if thrown l then [ErrGeneral] else []),
                     frames := newFrames l,
                     created := next_url l,
                     isProcessing := False,
                     progress_reports := progress_reports s @ reported l @ [Fin 100]\<rparr>)"

text \<open>
  \<open>processVideo\<close> of the second version: the interval is always
  \<open>Math.max(0.1, duration / targetFrameCount)\<close>, the ceiling is 60, new frames are selected.
\<close>

definition processVideo_v2 :: "step_outcome video_source \<Rightarrow> app_state \<Rightarrow> app_state" where
  "processVideo_v2 v s0 =
     (let s = s0\<lparr>isProcessing := True,
                 progress_reports := progress_reports s0 @ [Fin 0],
                 frames := []\<rparr>
      in if \<not> metadata_loaded v
         then s\<lparr>alerts := alerts s @ [ErrMetadata], isProcessing := False\<rparr>
         else
           let duration = sanitize_duration (video_duration v);
               interval = js_max (Fin (1 / 10)) (js_div duration targetFrameCount)
           in if \<not> context_2d v
              then s\<lparr>isProcessing := False, alerts := alerts s @ [ErrCanvas]\<rparr>
              else
                let l = sampling_loop MAX_LOOPS_v2 (decoder v) True duration interval
                          (loop_init (plan_start duration) (created s))
                in s\<lparr>alerts := alerts s @ (if thrown l then [ErrGeneral] else []),
                     frames := newFrames l,
                     created := next_url l,
                     isProcessing := False,
                     progress_reports := progress_reports s @ reported l @ [Fin 100]\<rparr>)"

text \<open>
  The two handlers that start a run, in the first version. \<open>processVideo\<close> reads
  \<open>framepSecond\<close> from the render whose closure runs. \<open>onFileSelect\<close> is created anew at
  every render and runs \<open>processVideo\<close> with the current rate. \<open>onDrop\<close> is wrapped in
  \<open>useCallback(..., [t])\<close>: it calls the \<open>processVideo\<close> of the render at which the language
  last changed (the first render, if it never did), with the rate of that render, here
  \<open>captured\<close>; the state is otherwise shared. A dropped file that is no video raises the
  alert \<open>errInvalid\<close>.
\<close>

definition onFileSelect :: "step_outcome video_source option \<Rightarrow> app_state \<Rightarrow> app_state" where
  "onFileSelect file s =
     (case file of
        Some v \<Rightarrow> processVideo v (s\<lparr>videoFile := True\<rparr>)
      | None \<Rightarrow> s)"

definition onDrop :: "jsnum \<Rightarrow> bool \<Rightarrow> step_outcome video_source \<Rightarrow> app_state \<Rightarrow> app_state" where
  "onDrop captured is_video v s =
     (if is_video
      then (processVideo v (s\<lparr>videoFile := True, framepSecond := captured\<rparr>))
             \<lparr>framepSecond := framepSecond s\<rparr>
      else s\<lparr>alerts := alerts s @ [ErrInvalid]\<rparr>)"

section \<open>Selection and lifecycle handlers\<close>

text \<open>\<open>Array.prototype.findIndex\<close>: the first index that satisfies the test, or \<open>-1\<close>.\<close>

fun findIndex :: "('a \<Rightarrow> bool) \<Rightarrow> 'a list \<Rightarrow> int" where
  "findIndex P [] = - 1"
| "findIndex P (x # xs) =
     (if P x then 0 else let i = findIndex P xs in if i < 0 then - 1 else i + 1)"

text \<open>An array read \<open>xs[i]\<close>: \<open>undefined\<close> (here \<open>None\<close>) outside the array.\<close>

definition js_nth :: "'a list \<Rightarrow> int \<Rightarrow> 'a option" where
  "js_nth xs i = (if 0 \<le> i \<and> i < int (length xs) then Some (xs ! nat i) else None)"

text \<open>\<open>a || b\<close> on values that are objects, \<open>undefined\<close> or \<open>null\<close>.\<close>

definition obj_or :: "'a option \<Rightarrow> 'a option \<Rightarrow> 'a option" where
  "obj_or a b = (case a of Some x \<Rightarrow> Some x | None \<Rightarrow> b)"

text \<open>\<open>handleRerun\<close>: revoke the object URL of every frame, then reset.\<close>

definition handleRerun :: "app_state \<Rightarrow> app_state" where
  "handleRerun s =
     s\<lparr>revoked := revoked s @ map url (frames s),
       frames := [],
       videoFile := False,
       progress_reports := progress_reports s @ [Fin 0],
       isProcessing := False\<rparr>"

definition toggleFrameSelection :: "string \<Rightarrow> app_state \<Rightarrow> app_state" where
  "toggleFrameSelection i s =
     s\<lparr>frames := map (\<lambda>f. if frame_id f = i then f\<lparr>selected := \<not> selected f\<rparr> else f) (frames s),
       expandedFrame :=
         (case expandedFrame s of
            Some e \<Rightarrow> if frame_id e = i then Some (e\<lparr>selected := \<not> selected e\<rparr>) else Some e
          | None \<Rightarrow> None)\<rparr>"

definition selectAll :: "bool \<Rightarrow> app_state \<Rightarrow> app_state" where
  "selectAll select s = s\<lparr>frames := map (\<lambda>f. f\<lparr>selected := select\<rparr>) (frames s)\<rparr>"

text \<open>
  \<open>deleteFrame\<close>. When no frame is left, the handler clears the state and, from a timer,
  shows the warning and calls \<open>handleRerun\<close>; the timer's callback is run here right
  after the state update.
\<close>

definition deleteFrame :: "string \<Rightarrow> app_state \<Rightarrow> app_state" where
  "deleteFrame i s =
     (let frameIndex = findIndex (\<lambda>f. frame_id f = i) (frames s);
          nextFrameToShow =
            obj_or (js_nth (frames s) (frameIndex + 1)) (js_nth (frames s) (frameIndex - 1));
          newFrames = filter (\<lambda>f. frame_id f \<noteq> i) (frames s);
          frameToDelete = find (\<lambda>f. frame_id f = i) (frames s);
          s1 = (case frameToDelete of
                  Some f \<Rightarrow> s\<lparr>revoked := revoked s @ [url f]\<rparr>
                | None \<Rightarrow> s)
      in if length newFrames = 0
         then handleRerun
                (s1\<lparr>expandedFrame := None, frames := [], alerts := alerts s1 @ [WarnBadVideo]\<rparr>)
         else s1\<lparr>frames := newFrames,
                 expandedFrame :=
                   (case expandedFrame s of
                      Some e \<Rightarrow> if frame_id e = i then nextFrameToShow else Some e
                    | None \<Rightarrow> None)\<rparr>)"

text \<open>The object URLs of frames that were handed out and not revoked since.\<close>

definition live_handles :: "app_state \<Rightarrow> nat set" where
  "live_handles s = {h. h < created s} - set (revoked s)"

section \<open>Export\<close>

text \<open>The name of the archive entry written for the selected frame at position \<open>i\<close>.\<close>

definition entry_name :: "nat \<Rightarrow> string" where
  "entry_name i =
     (let indexStr = padStart 2 (CHR ''0'') (toString (i + 1))
      in ''portfolio_shot_'' @ indexStr @ ''.jpg'')"

text \<open>
  \<open>handleDownload\<close>, up to the entries handed to the archive library: refused when no
  frame is selected; \<open>zip_ok\<close> says whether the library built the archive.
\<close>

definition handleDownload :: "bool \<Rightarrow> app_state \<Rightarrow> alert + (string \<times> Blob) list" where
  "handleDownload zip_ok s =
     (let selectedFrames = filter selected (frames s)
      in if length selectedFrames = 0 then Inl ErrNoSel
         else if \<not> zip_ok then Inl ErrZip
         else Inr (map (\<lambda>(i, frame). (entry_name i, blob frame)) (enumerate 0 selectedFrames)))"

text \<open>
  The order of strings by code units, the lexicographic order in which a file listing
  sorts the entry names.
\<close>

fun lex_less :: "string \<Rightarrow> string \<Rightarrow> bool" where
  "lex_less [] [] = False"
| "lex_less [] (y # ys) = True"
| "lex_less (x # xs) [] = False"
| "lex_less (x # xs) (y # ys) =
     (if (of_char x :: nat) < of_char y then True
      else if (of_char y :: nat) < of_char x then False
      else lex_less xs ys)"

section \<open>The component of \<open>src/index.tsx\<close>\<close>

text \<open>
  The planning of \<open>processVideo\<close> in \<open>src/index.tsx\<close>:
  \<open>const duration = video.duration || 1;\<close>,
  \<open>const interval = Math.max(0.5, duration / targetFrameCount);\<close> and
  \<open>let currentTime = Math.min(0.5, duration / 2);\<close>
\<close>

definition duration_index :: "jsnum \<Rightarrow> jsnum" where
  "duration_index d = js_or d (Fin 1)"

definition interval_index :: "jsnum \<Rightarrow> jsnum" where
  "interval_index duration = js_max (Fin (1 / 2)) (js_div duration targetFrameCount)"

definition start_index :: "jsnum \<Rightarrow> jsnum" where
  "start_index duration = js_min (Fin (1 / 2)) (js_div duration (Fin 2))"

text \<open>
  The loop of \<open>src/index.tsx\<close>, \<open>while (currentTime < duration) { ... }\<close>. It has no
  step counter (\<open>loopCount\<close> only numbers the steps here) and its wait for \<open>seeked\<close> has
  no timeout: at a step where the event never comes (\<open>None\<close>) the loop does not return.
\<close>

partial_function (option) sampling_loop_index ::
  "(nat \<Rightarrow> step_outcome option) \<Rightarrow> jsnum \<Rightarrow> jsnum \<Rightarrow> loop_state \<Rightarrow> loop_state option"
where
  "sampling_loop_index dec duration interval s =
     (if js_lt (currentTime s) duration then
        let n = Suc (loopCount s);
            s1 = s\<lparr>loopCount := n,
                   reported := reported s @
                     [js_min (Fin 99)
                        (js_round (js_mul (js_div (currentTime s) duration) (Fin 100)))]\<rparr>
        in case dec n of
             None \<Rightarrow> None
           | Some Thrown \<Rightarrow> Some (s1\<lparr>thrown := True\<rparr>)
           | Some NoBlob \<Rightarrow>
               sampling_loop_index dec duration interval
                 (s1\<lparr>currentTime := js_add (currentTime s) interval\<rparr>)
           | Some (Captured b) \<Rightarrow>
               sampling_loop_index dec duration interval
                 (s1\<lparr>newFrames := newFrames s @
                        [\<lparr>frame_id = ''frame-'' @ toFixed2 (currentTime s),
                          url = next_url s,
                          blob = b,
                          selected = True,
                          timestamp = currentTime s\<rparr>],
                      next_url := Suc (next_url s),
                      currentTime := js_add (currentTime s) interval\<rparr>)
      else Some s)"

text \<open>
  The effect of \<open>src/index.tsx\<close>,
  \<open>useEffect(() => { return () => { frames.forEach(f => URL.revokeObjectURL(f.url)); }; }, [frames])\<close>.
  Its cleanup runs at unmount and whenever a render sees another \<open>frames\<close> array, and it
  revokes the URL of every frame of the array that is replaced. Every \<open>setFrames\<close> of this
  component passes a fresh array (\<open>[]\<close>, \<open>newFrames\<close>, the result of \<open>filter\<close> or \<open>map\<close>), so
  each call is followed by that cleanup. The new state and the cleanup take effect at the
  next render, after the handler that called \<open>setFrames\<close> has returned.
\<close>

definition setFrames_index :: "PortfolioFrame list \<Rightarrow> app_state \<Rightarrow> app_state" where
  "setFrames_index new s = s\<lparr>frames := new, revoked := revoked s @ map url (frames s)\<rparr>"

text \<open>\<open>processVideo\<close> of \<open>src/index.tsx\<close>; \<open>None\<close> when it never returns.\<close>

definition processVideo_index :: "step_outcome option video_source \<Rightarrow> app_state \<Rightarrow> app_state option" where
  "processVideo_index v s0 =
     (let s = setFrames_index []
                (s0\<lparr>isProcessing := True, progress_reports := progress_reports s0 @ [Fin 0]\<rparr>)
      in if \<not> metadata_loaded v
         then Some (s\<lparr>alerts := alerts s @ [ErrMetadata], isProcessing := False\<rparr>)
         else
           let duration = duration_index (video_duration v);
               interval = interval_index duration
           in if \<not> context_2d v
              then Some (s\<lparr>isProcessing := False, alerts := alerts s @ [ErrCanvas]\<rparr>)
              else
                case sampling_loop_index (decoder v) duration interval
                       (loop_init (start_index duration) (created s)) of
                  None \<Rightarrow> None
                | Some l \<Rightarrow>
                    Some (setFrames_index (newFrames l)
                            (s\<lparr>alerts := alerts s @ (if thrown l then [ErrGeneral] else []),
                               created := next_url l,
                               isProcessing := False,
                               progress_reports := progress_reports s @ reported l @ [Fin 100]\<rparr>)))"

text \<open>
  \<open>deleteFrame\<close> in \<open>src/index.tsx\<close>:
  \<open>setFrames(frames.filter(f => f.id !== id)); const frame = frames.find(f => f.id === id);
  if (frame) URL.revokeObjectURL(frame.url);\<close>.
  The handler revokes the URL of the frame found; the filtered array is installed at the
  next render, where the cleanup of the effect revokes the URLs of the array it replaces.
\<close>

definition deleteFrame_index :: "string \<Rightarrow> app_state \<Rightarrow> app_state" where
  "deleteFrame_index i s =
     (let frame = find (\<lambda>f. frame_id f = i) (frames s);
          s1 = (case frame of Some f \<Rightarrow> s\<lparr>revoked := revoked s @ [url f]\<rparr> | None \<Rightarrow> s)
      in setFrames_index (filter (\<lambda>f. frame_id f \<noteq> i) (frames s)) s1)"

section \<open>The progress formula of the specification\<close>

text \<open>\<open>currentTime\<close> after \<open>k\<close> executions of \<open>currentTime += interval\<close>.\<close>

primrec time_at :: "jsnum \<Rightarrow> jsnum \<Rightarrow> nat \<Rightarrow> jsnum" where
  "time_at start interval 0 = start"
| "time_at start interval (Suc k) = js_add (time_at start interval k) interval"

text \<open>
  The progress value as the specification words it: the larger of
  \<open>timeProgress = currentTime / duration * 100\<close> and
  \<open>stepProgress = stepsTaken / stepCeiling * 100\<close>, rounded and clamped to at most 99.
\<close>

definition spec_progress :: "nat \<Rightarrow> jsnum \<Rightarrow> jsnum \<Rightarrow> nat \<Rightarrow> jsnum" where
  "spec_progress stepCeiling duration ct stepsTaken =
     (let timeProgress = js_mul (js_div ct duration) (Fin 100);
          stepProgress = js_mul (js_div (Fin (real stepsTaken)) (Fin (real stepCeiling))) (Fin 100)
      in js_min (Fin 99) (js_round (js_max timeProgress stepProgress)))"

section \<open>Example inputs\<close>

text \<open>The state of a freshly mounted component with the given frame rate setting.\<close>

definition fresh_state :: "jsnum \<Rightarrow> app_state" where
  "fresh_state fps =
     \<lparr>videoFile = False, isProcessing = False, frames = [], expandedFrame = None,
      framepSecond = fps, progress_reports = [], created = 0, revoked = [], alerts = []\<rparr>"

text \<open>
  A state with two frames, as left by a run on a two second video at one frame per second
  and a click that selected the second frame.
\<close>

definition two_frames :: app_state where
  "two_frames =
     (fresh_state (Fin 1))
       \<lparr>frames :=
          [\<lparr>frame_id = ''frame-0.10'', url = 0, blob = [], selected = False, timestamp = Fin (1 / 10)\<rparr>,
           \<lparr>frame_id = ''frame-1.10'', url = 1, blob = [], selected = True, timestamp = Fin (11 / 10)\<rparr>],
        created := 2, videoFile := True\<rparr>"

text \<open>A two second video that loads and whose every step yields a blob.\<close>

definition clip_2s :: "step_outcome video_source" where
  "clip_2s = \<lparr>metadata_loaded = True, video_duration = Fin 2, context_2d = True,
              decoder = (\<lambda>n. Captured [])\<rparr>"


text \<open>
  The same video for \<open>src/index.tsx\<close>, where every seek completes, and the state that a
  run on it leaves: three selected frames at 0.5, 1 and 1.5 seconds.
\<close>

definition clip_2s_index :: "step_outcome option video_source" where
  "clip_2s_index = \<lparr>metadata_loaded = True, video_duration = Fin 2, context_2d = True,
                    decoder = (\<lambda>n. Some (Captured []))\<rparr>"

definition three_frames_index :: app_state where
  "three_frames_index =
     (fresh_state (Fin 1))
       \<lparr>frames :=
          [\<lparr>frame_id = ''frame-0.50'', url = 0, blob = [], selected = True, timestamp = Fin (1 / 2)\<rparr>,
           \<lparr>frame_id = ''frame-1.00'', url = 1, blob = [], selected = True, timestamp = Fin 1\<rparr>,
           \<lparr>frame_id = ''frame-1.50'', url = 2, blob = [], selected = True, timestamp = Fin (3 / 2)\<rparr>],
        progress_reports := [Fin 0, Fin 25, Fin 50, Fin 75, Fin 100],
        created := 3\<rparr>"

text \<open>A two second video that loads and on which no seek ever signals \<open>seeked\<close>.\<close>

definition stalled_clip :: "step_outcome option video_source" where
  "stalled_clip = \<lparr>metadata_loaded = True, video_duration = Fin 2, context_2d = True,
                   decoder = (\<lambda>n. None)\<rparr>"

text \<open>
  A state with \<open>n\<close> frames, all selected, as left by a run at one frame per second on a
  video of \<open>n\<close> seconds followed by "select all".
\<close>

definition gallery :: "nat \<Rightarrow> app_state" where
  "gallery n =
     (fresh_state (Fin 1))
       \<lparr>videoFile := True,
        frames :=
          map (\<lambda>k. \<lparr>frame_id = ''frame-'' @ toFixed2 (Fin (real k + 1 / 10)), url = k, blob = [],
                     selected = True, timestamp = Fin (real k + 1 / 10)\<rparr>) [0..<n],
        created := n\<rparr>"

text \<open>
  The first two frames of a run at 240 frames per second on \<open>clip_2s\<close>: the timestamps
  \<open>0.1\<close> and \<open>0.1 + 1/240\<close> both print as \<open>0.10\<close>.
\<close>

definition frame_a :: PortfolioFrame where
  "frame_a = \<lparr>frame_id = ''frame-0.10'', url = 0, blob = [], selected = False,
              timestamp = Fin (1 / 10)\<rparr>"

definition frame_b :: PortfolioFrame where
  "frame_b = \<lparr>frame_id = ''frame-0.10'', url = 1, blob = [], selected = False,
              timestamp = Fin (5 / 48)\<rparr>"

section \<open>Auxiliary notions for the proofs\<close>

definition loop_guard :: "nat \<Rightarrow> jsnum \<Rightarrow> loop_state \<Rightarrow> bool" where
  "loop_guard M duration s = (js_lt (currentTime s) duration \<and> loopCount s < M)"

definition step_progress :: "nat \<Rightarrow> jsnum \<Rightarrow> loop_state \<Rightarrow> jsnum" where
  "step_progress M duration s =
     js_min (Fin 99) (js_round (js_max
        (js_mul (js_div (currentTime s) duration) (Fin 100))
        (js_mul (js_div (Fin (real (Suc (loopCount s)))) (Fin (real M))) (Fin 100))))"

definition step_frame :: "bool \<Rightarrow> Blob \<Rightarrow> loop_state \<Rightarrow> PortfolioFrame" where
  "step_frame sel b s =
     \<lparr>frame_id = ''frame-'' @ toFixed2 (currentTime s), url = next_url s, blob = b,
      selected = sel, timestamp = currentTime s\<rparr>"

text \<open>
  The timestamps of \<open>fs\<close> increase strictly and are finite, non-negative, below \<open>c\<close> and
  below \<open>d\<close>.
\<close>

definition stamps_below :: "real \<Rightarrow> real \<Rightarrow> PortfolioFrame list \<Rightarrow> bool" where
  "stamps_below c d fs =
     (sorted_wrt js_lt (map timestamp fs) \<and>
      (\<forall>f\<in>set fs. \<exists>x. timestamp f = Fin x \<and> 0 \<le> x \<and> x < c \<and> x < d))"

text \<open>
  The handle discipline: the frames hold pairwise different object URLs, these are exactly
  the URLs handed out and not revoked, and no URL was revoked twice or before it existed.
\<close>

definition handles_ok :: "app_state \<Rightarrow> bool" where
  "handles_ok s =
     (distinct (map url (frames s)) \<and> url ` set (frames s) = live_handles s \<and>
      distinct (revoked s) \<and> set (revoked s) \<subseteq> {h. h < created s})"

section \<open>Underflow\<close>

lemma min_subnormal_pos: "0 < min_subnormal"
  by (simp add: min_subnormal_def)

lemma min_subnormal_small: "min_subnormal / 2 < 1 / 10 ^ 6"
proof -
  have "(10::real) ^ 6 < 2 ^ 20"
    by simp
  also have "(2::real) ^ 20 \<le> 2 ^ 1074"
    by (rule power_increasing) simp_all
  finally have "1 / (2::real) ^ 1074 < 1 / 10 ^ 6"
    by (simp add: frac_less2)
  then show ?thesis
    using min_subnormal_pos by (simp add: min_subnormal_def)
qed

lemma underflow_0 [simp]: "underflow 0 = 0"
  by (simp add: underflow_def)

lemma underflow_id: "1 / 10 ^ 6 \<le> \<bar>x\<bar> \<Longrightarrow> underflow x = x"
  using min_subnormal_small by (simp add: underflow_def)


lemma underflow_mono: "x \<le> y \<Longrightarrow> underflow x \<le> underflow y"
  using min_subnormal_pos by (auto simp: underflow_def)

lemma underflow_nonneg: "0 \<le> x \<Longrightarrow> 0 \<le> underflow x"
  by (simp add: underflow_def)

lemma underflow_nonpos: "x \<le> 0 \<Longrightarrow> underflow x \<le> 0"
  by (simp add: underflow_def)

lemma underflow_le: "0 \<le> x \<Longrightarrow> underflow x \<le> x"
  by (simp add: underflow_def)

lemma le_max_half_underflow: "x \<le> max (1 / 2) (underflow x)"
  using min_subnormal_small by (auto simp: underflow_def max_def)

section \<open>Unfolding the sampling loop\<close>

lemma loop_stop:
  "\<not> loop_guard M duration s \<Longrightarrow> sampling_loop M dec sel duration interval s = s"
  by (subst sampling_loop.simps) (auto simp: loop_guard_def)

lemma loop_thrown:
  "loop_guard M duration s \<Longrightarrow> dec (Suc (loopCount s)) = Thrown \<Longrightarrow>
   sampling_loop M dec sel duration interval s =
     s\<lparr>loopCount := Suc (loopCount s),
       reported := reported s @ [step_progress M duration s],
       thrown := True\<rparr>"
  apply (subst sampling_loop.simps)
  unfolding Let_def step_progress_def loop_guard_def
  apply simp
  done

lemma loop_noblob:
  "loop_guard M duration s \<Longrightarrow> dec (Suc (loopCount s)) = NoBlob \<Longrightarrow>
   sampling_loop M dec sel duration interval s =
     sampling_loop M dec sel duration interval
       (s\<lparr>loopCount := Suc (loopCount s),
          reported := reported s @ [step_progress M duration s],
          currentTime := js_add (currentTime s) interval\<rparr>)"
  apply (subst sampling_loop.simps)
  unfolding Let_def step_progress_def loop_guard_def
  apply simp
  done

lemma loop_captured:
  "loop_guard M duration s \<Longrightarrow> dec (Suc (loopCount s)) = Captured b \<Longrightarrow>
   sampling_loop M dec sel duration interval s =
     sampling_loop M dec sel duration interval
       (s\<lparr>loopCount := Suc (loopCount s),
          reported := reported s @ [step_progress M duration s],
          newFrames := newFrames s @ [step_frame sel b s],
          next_url := Suc (next_url s),
          currentTime := js_add (currentTime s) interval\<rparr>)"
  apply (subst sampling_loop.simps)
  unfolding Let_def step_progress_def loop_guard_def step_frame_def
  apply simp
  done

lemma sampling_loop_rule:
  assumes init: "I s"
    and e: "\<And>s. I s \<Longrightarrow> \<not> loop_guard M duration s \<Longrightarrow> Q s"
    and t: "\<And>s. I s \<Longrightarrow> loop_guard M duration s \<Longrightarrow> dec (Suc (loopCount s)) = Thrown \<Longrightarrow>
       Q (s\<lparr>loopCount := Suc (loopCount s),
            reported := reported s @ [step_progress M duration s],
            thrown := True\<rparr>)"
    and n: "\<And>s. I s \<Longrightarrow> loop_guard M duration s \<Longrightarrow> dec (Suc (loopCount s)) = NoBlob \<Longrightarrow>
       I (s\<lparr>loopCount := Suc (loopCount s),
            reported := reported s @ [step_progress M duration s],
            currentTime := js_add (currentTime s) interval\<rparr>)"
    and c: "\<And>s b. I s \<Longrightarrow> loop_guard M duration s \<Longrightarrow> dec (Suc (loopCount s)) = Captured b \<Longrightarrow>
       I (s\<lparr>loopCount := Suc (loopCount s),
            reported := reported s @ [step_progress M duration s],
            newFrames := newFrames s @ [step_frame sel b s],
            next_url := Suc (next_url s),
            currentTime := js_add (currentTime s) interval\<rparr>)"
  shows "Q (sampling_loop M dec sel duration interval s)"
  using init
proof (induction k \<equiv> "M - loopCount s" arbitrary: s)
  case 0
  then have "\<not> loop_guard M duration s"
    by (simp add: loop_guard_def)
  with e [OF "0.prems"] show ?case
    by (simp add: loop_stop)
next
  case (Suc k)
  show ?case
  proof (cases "loop_guard M duration s")
    case False
    with e [OF Suc.prems] show ?thesis
      by (simp add: loop_stop)
  next
    case True
    show ?thesis
    proof (cases "dec (Suc (loopCount s))")
      case Thrown
      with t [OF Suc.prems True Thrown] True show ?thesis
        by (simp add: loop_thrown)
    next
      case NoBlob
      let ?s' = "s\<lparr>loopCount := Suc (loopCount s),
            reported := reported s @ [step_progress M duration s],
            currentTime := js_add (currentTime s) interval\<rparr>"
      have "k = M - loopCount ?s'"
        using Suc.hyps(2) by simp
      from Suc.hyps(1) [OF this n [OF Suc.prems True NoBlob]] True NoBlob show ?thesis
        by (simp add: loop_noblob)
    next
      case (Captured b)
      let ?s' = "s\<lparr>loopCount := Suc (loopCount s),
            reported := reported s @ [step_progress M duration s],
            newFrames := newFrames s @ [step_frame sel b s],
            next_url := Suc (next_url s),
            currentTime := js_add (currentTime s) interval\<rparr>"
      have "k = M - loopCount ?s'"
        using Suc.hyps(2) by simp
      from Suc.hyps(1) [OF this c [OF Suc.prems True Captured]] True Captured show ?thesis
        by (simp add: loop_captured)
    qed
  qed
qed

section \<open>Bounds of the sampling loop\<close>

lemma sampling_loop_counts:
  assumes "length (reported s) = loopCount s" "length (newFrames s) \<le> loopCount s"
    "loopCount s \<le> M"
  shows "length (reported (sampling_loop M dec sel duration interval s)) =
           loopCount (sampling_loop M dec sel duration interval s) \<and>
         length (newFrames (sampling_loop M dec sel duration interval s)) \<le>
           loopCount (sampling_loop M dec sel duration interval s) \<and>
         loopCount (sampling_loop M dec sel duration interval s) \<le> M"
  by (rule sampling_loop_rule
        [where I = "\<lambda>t. length (reported t) = loopCount t \<and> length (newFrames t) \<le> loopCount t
                        \<and> loopCount t \<le> M"])
     (use assms in \<open>auto simp: loop_guard_def\<close>)

lemma loop_init_counts:
  "length (reported (sampling_loop M dec sel duration interval (loop_init start u))) =
     loopCount (sampling_loop M dec sel duration interval (loop_init start u))"
  "length (newFrames (sampling_loop M dec sel duration interval (loop_init start u))) \<le>
     loopCount (sampling_loop M dec sel duration interval (loop_init start u))"
  "loopCount (sampling_loop M dec sel duration interval (loop_init start u)) \<le> M"
  using sampling_loop_counts [of "loop_init start u" M dec sel duration interval]
  by (simp_all add: loop_init_def)

lemma loop_without_progress_in_time:
  "loopCount (sampling_loop M (\<lambda>n. NoBlob) sel (Fin 1) (Fin 0) (loop_init (Fin 0) u)) = M"
  by (rule sampling_loop_rule
        [where I = "\<lambda>t. currentTime t = Fin 0 \<and> loopCount t \<le> M"])
     (auto simp: loop_init_def loop_guard_def)

text \<open>
  The loop of \<open>src/unnamed/part_000\<close>. Whatever the values of \<open>duration\<close>, \<open>interval\<close> and
  the first timestamp (finite or not, advancing or not) and whatever the decoder does, the
  sampling loop returns after at most \<open>MAX_LOOPS\<close> = 600 iterations (60 in the second
  variant): the guard \<open>loopCount < MAX_LOOPS\<close> alone bounds it. The iterations are counted by
  \<open>loopCount\<close> and by the progress values reported, one per iteration. When \<open>currentTime\<close>
  does not advance at all (interval 0) the time guard never fails and the loop stops after
  exactly 600 iterations.
\<close>

lemma sampling_loop_halts_within_ceiling:
  "loopCount (sampling_loop MAX_LOOPS dec sel duration interval (loop_init start u)) \<le> 600 \<and>
   length (reported (sampling_loop MAX_LOOPS dec sel duration interval (loop_init start u))) \<le> 600 \<and>
   loopCount (sampling_loop MAX_LOOPS_v2 dec sel duration interval (loop_init start u)) \<le> 60 \<and>
   length (reported (sampling_loop MAX_LOOPS_v2 dec sel duration interval (loop_init start u))) \<le> 60 \<and>
   loopCount (sampling_loop MAX_LOOPS (\<lambda>n. NoBlob) sel (Fin 1) (Fin 0) (loop_init (Fin 0) u)) = 600"
  using loop_init_counts(1,3) [of MAX_LOOPS dec sel duration interval start u]
    loop_init_counts(1,3) [of MAX_LOOPS_v2 dec sel duration interval start u]
    loop_without_progress_in_time [of MAX_LOOPS sel u]
  by (simp add: MAX_LOOPS_def MAX_LOOPS_v2_def)

text \<open>
  C2. A run of \<open>processVideo\<close> never commits more than \<open>MAX_LOOPS\<close> = 600 frames (60 in
  the second variant), whatever the video and the state; the bound holds for the loop
  with any \<open>interval\<close> at all, zero and \<open>NaN\<close> included.
\<close>

theorem frames_never_exceed_ceiling:
  "length (frames (processVideo v s)) \<le> 600 \<and>
   length (frames (processVideo_v2 v s)) \<le> 60 \<and>
   length (newFrames (sampling_loop MAX_LOOPS dec sel duration interval (loop_init start u))) \<le> 600"
proof -
  have a: "length (newFrames (sampling_loop M d b x y (loop_init z w))) \<le> M" for M d b x y z w
    using loop_init_counts(2,3) [of M d b x y z w] by simp
  have "length (frames (processVideo v s)) \<le> 600"
    using a [of MAX_LOOPS] by (simp add: processVideo_def Let_def MAX_LOOPS_def)
  moreover have "length (frames (processVideo_v2 v s)) \<le> 60"
    using a [of MAX_LOOPS_v2] by (simp add: processVideo_v2_def Let_def MAX_LOOPS_v2_def)
  moreover have
    "length (newFrames (sampling_loop MAX_LOOPS dec sel duration interval (loop_init start u))) \<le> 600"
    using a [of MAX_LOOPS] by (simp add: MAX_LOOPS_def)
  ultimately show ?thesis by simp
qed

section \<open>Planning: duration, interval and first timestamp\<close>

lemma sanitize_duration_pos: "\<exists>d. 0 < d \<and> sanitize_duration x = Fin d"
  by (cases x) (auto simp: sanitize_duration_def)

lemma sanitize_duration_default:
  "\<not> isFinite x \<or> js_le x (Fin 0) \<Longrightarrow> sanitize_duration x = Fin 1"
  by (simp add: sanitize_duration_def)

lemma plan_interval_truthy:
  "x \<noteq> 0 \<Longrightarrow>
   plan_interval (Fin x) (Fin d) = Fin (max (underflow (1 / x)) (underflow (d / 600)))"
  by (simp add: plan_interval_def js_gt_def js_max_def maxFrameCount_def max_def)

lemma plan_interval_infinite:
  assumes "0 < d" "r = PosInf \<or> r = NegInf"
  shows "plan_interval r (Fin d) = Fin (underflow (d / 600))"
proof -
  have "0 \<le> underflow (d / 600)"
    using assms(1) by (simp add: underflow_nonneg)
  then show ?thesis
    using assms(2) by (auto simp: plan_interval_def js_gt_def js_max_def maxFrameCount_def)
qed

lemma plan_interval_falsy:
  "r = Fin 0 \<or> r = NaN \<Longrightarrow> plan_interval r (Fin d) = Fin (max (1 / 10) (underflow (d / 30)))"
  by (auto simp: plan_interval_def js_gt_def js_max_def targetFrameCount_def max_def)

lemma plan_interval_nonneg:
  assumes d: "0 < d"
  shows "\<exists>i. 0 \<le> i \<and> plan_interval r (Fin d) = Fin i"
proof -
  from d have u: "0 \<le> underflow (d / 600)"
    by (simp add: underflow_nonneg)
  then have m: "0 \<le> max a (underflow (d / 600))" for a :: real
    by (simp add: le_max_iff_disj)
  have m': "0 \<le> max (1 / 10) (underflow (d / 30))"
    by (simp add: le_max_iff_disj)
  consider x where "r = Fin x" "x \<noteq> 0" | "r = Fin 0 \<or> r = NaN" | "r = PosInf \<or> r = NegInf"
    by (cases r) auto
  then show ?thesis
  proof cases
    case 1
    with plan_interval_truthy [of x d] m show ?thesis by blast
  next
    case 2
    with plan_interval_falsy [of r d] m' show ?thesis by blast
  next
    case 3
    with plan_interval_infinite [OF d, of r] u show ?thesis by blast
  qed
qed

lemma plan_start_fin: "plan_start (Fin d) = Fin (min (1 / 10) (underflow (d / 10)))"
  by (simp add: plan_start_def js_min_def min_def)

lemma plan_start_nonneg: "0 < d \<Longrightarrow> 0 \<le> min (1 / 10) (underflow (d / 10))"
  by (simp add: underflow_nonneg)

text \<open>
  C5 at the failing input. The test is \<open>framepSecond > 0 || framepSecond\<close>: its first
  disjunct tests for a positive rate (the input field has \<open>min={0.01}\<close>), its second lets
  every truthy rate through, and \<open>-1\<close> is truthy. At the rate \<open>-1\<close> and the duration 10 the
  rate branch is taken and the interval is \<open>max(1 / -1, 10 / 600) = 1/60\<close>, the densest
  sampling, not the fallback \<open>max(0.1, 10 / 30) = 1/3\<close>. The rates 0 and \<open>NaN\<close> do fall back
  (\<open>plan_interval_falsy\<close>).
\<close>

theorem negative_rate_does_not_fall_back:
  "plan_interval (Fin (- 1)) (Fin 10) = Fin (1 / 60) \<and>
   js_max (Fin (1 / 10)) (js_div (Fin 10) targetFrameCount) = Fin (1 / 3) \<and>
   plan_interval (Fin (- 1)) (Fin 10) \<noteq> js_max (Fin (1 / 10)) (js_div (Fin 10) targetFrameCount)"
  by (simp add: plan_interval_def js_gt_def js_max_def maxFrameCount_def targetFrameCount_def
      underflow_id)

text \<open>
  C3 at the failing input. In \<open>src/index.tsx\<close> the fallback is \<open>video.duration || 1\<close>, and
  \<open>Infinity\<close> is truthy: the duration stays infinite, and so does the planned interval.
  The components with \<open>Number.isFinite\<close> substitute 1 (\<open>sanitize_duration_default\<close>).
\<close>

theorem index_keeps_infinite_duration:
  "duration_index PosInf = PosInf \<and>
   interval_index (duration_index PosInf) = PosInf \<and>
   start_index (duration_index PosInf) = Fin (1 / 2)"
  by (simp add: duration_index_def js_or_def interval_index_def start_index_def js_max_def js_min_def
      targetFrameCount_def)

section \<open>Deleting a frame\<close>

lemma find_id_None: "find P xs = None \<longleftrightarrow> (\<forall>x\<in>set xs. \<not> P x)"
  by (induction xs) auto

text \<open>
  In both versions of \<open>src/unnamed/part_000\<close>, \<open>deleteFrame\<close> with an id that no frame has
  leaves the frames as they are (same frames, order and flags) and revokes no object URL.
  Their only cleanup effect has no dependencies and runs at unmount (the comment there:
  ``Cleanup ONLY on true component unmount, not on every frames state change'').
\<close>

lemma deleteFrame_unknown_id:
  assumes "frames s \<noteq> []" and "\<forall>f\<in>set (frames s). frame_id f \<noteq> i"
  shows "frames (deleteFrame i s) = frames s \<and>
         revoked (deleteFrame i s) = revoked s \<and>
         created (deleteFrame i s) = created s \<and>
         live_handles (deleteFrame i s) = live_handles s"
proof -
  have f: "filter (\<lambda>f. frame_id f \<noteq> i) (frames s) = frames s"
    using assms(2) by (simp add: filter_id_conv)
  have n: "find (\<lambda>f. frame_id f = i) (frames s) = None"
    using assms(2) by (simp add: find_id_None)
  show ?thesis
    using assms(1) by (simp add: deleteFrame_def Let_def f n live_handles_def)
qed

lemma deleteFrame_unknown_id_two_frames:
  "frames (deleteFrame ''frame-9.99'' two_frames) = frames two_frames \<and>
   revoked (deleteFrame ''frame-9.99'' two_frames) = [] \<and>
   length (frames two_frames) = 2"
  using deleteFrame_unknown_id [of two_frames "''frame-9.99''"]
  by (simp add: two_frames_def fresh_state_def)

text \<open>
  In \<open>src/index.tsx\<close> a delete with an unknown id keeps the frames and revokes the URL of
  every one of them: \<open>filter\<close> returns a new array, and the cleanup of the effect keyed on
  \<open>[frames]\<close> runs on the array it replaces.
\<close>

lemma deleteFrame_index_unknown_id:
  assumes "\<forall>f\<in>set (frames s). frame_id f \<noteq> i"
  shows "frames (deleteFrame_index i s) = frames s"
    and "revoked (deleteFrame_index i s) = revoked s @ map url (frames s)"
proof -
  have f: "filter (\<lambda>f. frame_id f \<noteq> i) (frames s) = frames s"
    using assms by (simp add: filter_id_conv)
  have n: "find (\<lambda>f. frame_id f = i) (frames s) = None"
    using assms by (simp add: find_id_None)
  show "frames (deleteFrame_index i s) = frames s"
    by (simp add: deleteFrame_index_def setFrames_index_def Let_def f n)
  show "revoked (deleteFrame_index i s) = revoked s @ map url (frames s)"
    by (simp add: deleteFrame_index_def setFrames_index_def Let_def f n)
qed



section \<open>Starting a run\<close>

text \<open>
  A run started from the file input is \<open>processVideo\<close> at the current rate; a run started by
  a drop is the same when the rate has not changed since \<open>onDrop\<close> was created.
\<close>

lemma onFileSelect_run:
  "onFileSelect (Some v) s = (processVideo v s)\<lparr>videoFile := True\<rparr>"
  by (simp add: onFileSelect_def processVideo_def Let_def)

lemma onDrop_current_rate:
  "onDrop (framepSecond s) True v s = onFileSelect (Some v) s"
  by (simp add: onDrop_def onFileSelect_def processVideo_def Let_def)

lemma onDrop_captured_rate:
  "frames (onDrop captured True v s) = frames (processVideo v (s\<lparr>framepSecond := captured\<rparr>))"
  by (simp add: onDrop_def processVideo_def Let_def)

section \<open>Evaluating a run\<close>

lemmas run_eval = processVideo_def Let_def sanitize_duration_def plan_interval_def plan_start_def
  js_gt_def js_max_def js_min_def js_round_def maxFrameCount_def targetFrameCount_def
  loop_init_def MAX_LOOPS_def toFixed2_def toFixed2_nonneg_def padStart_def digit_char_def
  fresh_state_def underflow_id

lemma run_2s_1fps:
  "processVideo clip_2s (fresh_state (Fin 1)) =
     (fresh_state (Fin 1))
       \<lparr>frames :=
          [\<lparr>frame_id = ''frame-0.10'', url = 0, blob = [], selected = False, timestamp = Fin (1 / 10)\<rparr>,
           \<lparr>frame_id = ''frame-1.10'', url = 1, blob = [], selected = False, timestamp = Fin (11 / 10)\<rparr>],
        progress_reports := [Fin 0, Fin 5, Fin 55, Fin 100],
        created := 2\<rparr>"
  by (simp add: run_eval clip_2s_def sampling_loop.simps)


section \<open>Timestamps of a run\<close>

lemma stamps_below_mono: "stamps_below c d fs \<Longrightarrow> c \<le> c' \<Longrightarrow> stamps_below c' d fs"
  by (fastforce simp: stamps_below_def)

lemma stamps_below_snoc:
  assumes "stamps_below c d fs" "timestamp f = Fin c" "0 \<le> c" "c < d" "c < c'"
  shows "stamps_below c' d (fs @ [f])"
proof -
  have "js_lt (timestamp g) (timestamp f)" if "g \<in> set fs" for g
    using assms(1,2) that by (fastforce simp: stamps_below_def)
  then have "sorted_wrt js_lt (map timestamp (fs @ [f]))"
    using assms(1) by (simp add: stamps_below_def sorted_wrt_append)
  moreover have "\<exists>x. timestamp g = Fin x \<and> 0 \<le> x \<and> x < c' \<and> x < d" if "g \<in> set (fs @ [f])" for g
    using assms that by (fastforce simp: stamps_below_def)
  ultimately show ?thesis
    by (simp add: stamps_below_def)
qed

lemma loop_timestamps:
  assumes i: "0 < i"
    and init: "currentTime s = Fin c" "0 \<le> c" "stamps_below c d (newFrames s)"
  shows "\<exists>c'. stamps_below c' d (newFrames (sampling_loop M dec sel (Fin d) (Fin i) s))"
proof (rule sampling_loop_rule
    [where I = "\<lambda>t. \<exists>c. currentTime t = Fin c \<and> 0 \<le> c \<and> stamps_below c d (newFrames t)"])
  show "\<exists>c. currentTime s = Fin c \<and> 0 \<le> c \<and> stamps_below c d (newFrames s)"
    using init by blast
next
  fix t :: loop_state
  assume "\<exists>c. currentTime t = Fin c \<and> 0 \<le> c \<and> stamps_below c d (newFrames t)"
  then obtain c where c: "currentTime t = Fin c" "0 \<le> c" "stamps_below c d (newFrames t)"
    by blast
  show "\<exists>c'. stamps_below c' d (newFrames t)"
    using c by blast
  show "\<exists>c'. stamps_below c' d (newFrames
          (t\<lparr>loopCount := Suc (loopCount t),
             reported := reported t @ [step_progress M (Fin d) t], thrown := True\<rparr>))"
    using c by auto
  have "stamps_below (c + i) d (newFrames t)"
    using c(3) i by (auto intro: stamps_below_mono)
  then show "\<exists>c. currentTime
            (t\<lparr>loopCount := Suc (loopCount t),
               reported := reported t @ [step_progress M (Fin d) t],
               currentTime := js_add (currentTime t) (Fin i)\<rparr>) = Fin c \<and> 0 \<le> c \<and>
          stamps_below c d (newFrames
            (t\<lparr>loopCount := Suc (loopCount t),
               reported := reported t @ [step_progress M (Fin d) t],
               currentTime := js_add (currentTime t) (Fin i)\<rparr>))"
    using c i by simp
  fix b
  assume "loop_guard M (Fin d) t"
  then have "c < d"
    using c(1) by (simp add: loop_guard_def)
  then have "stamps_below (c + i) d (newFrames t @ [step_frame sel b t])"
    using c i by (intro stamps_below_snoc [of c]) (simp_all add: step_frame_def)
  then show "\<exists>c. currentTime
            (t\<lparr>loopCount := Suc (loopCount t),
               reported := reported t @ [step_progress M (Fin d) t],
               newFrames := newFrames t @ [step_frame sel b t],
               next_url := Suc (next_url t),
               currentTime := js_add (currentTime t) (Fin i)\<rparr>) = Fin c \<and> 0 \<le> c \<and>
          stamps_below c d (newFrames
            (t\<lparr>loopCount := Suc (loopCount t),
               reported := reported t @ [step_progress M (Fin d) t],
               newFrames := newFrames t @ [step_frame sel b t],
               next_url := Suc (next_url t),
               currentTime := js_add (currentTime t) (Fin i)\<rparr>))"
    using c i by simp
qed

lemma stamps_below_Nil: "stamps_below c d []"
  by (simp add: stamps_below_def)

lemma run_timestamps:
  assumes "0 < d" "0 < i"
  shows "\<exists>c'. stamps_below c' d
           (newFrames (sampling_loop M dec sel (Fin d) (Fin i) (loop_init (plan_start (Fin d)) u)))"
  using assms
  by (intro loop_timestamps [where c = "min (1 / 10) (underflow (d / 10))"])
     (simp_all add: loop_init_def plan_start_fin stamps_below_Nil underflow_nonneg)

lemma stamps_below_bounds:
  assumes "stamps_below c d fs"
  shows "sorted_wrt js_lt (map timestamp fs) \<and>
         (\<forall>f\<in>set fs. js_le (Fin 0) (timestamp f) \<and> js_lt (timestamp f) (Fin d))"
  using assms by (fastforce simp: stamps_below_def)

text \<open>
  When the planned interval is positive, the frames committed by a run have strictly
  increasing timestamps, each at least 0 and below the duration that the run works with.
  (Sums are exact here.) The second version always plans a positive interval.
\<close>

lemma timestamps_with_positive_interval:
  assumes "plan_interval (framepSecond s) (sanitize_duration (video_duration v)) = Fin i" "0 < i"
  shows "sorted_wrt js_lt (map timestamp (frames (processVideo v s))) \<and>
         (\<forall>f\<in>set (frames (processVideo v s)).
            js_le (Fin 0) (timestamp f) \<and> js_lt (timestamp f) (sanitize_duration (video_duration v)))"
proof -
  obtain d where d: "0 < d" "sanitize_duration (video_duration v) = Fin d"
    using sanitize_duration_pos by blast
  show ?thesis
  proof (cases "metadata_loaded v \<and> context_2d v")
    case True
    obtain c where "stamps_below c d (newFrames (sampling_loop MAX_LOOPS (decoder v) False (Fin d) (Fin i)
        (loop_init (plan_start (Fin d)) (created s))))"
      using run_timestamps [OF d(1) assms(2)] by blast
    from stamps_below_bounds [OF this] True assms(1) show ?thesis
      by (simp add: processVideo_def Let_def d)
  next
    case False
    then show ?thesis
      by (auto simp: processVideo_def Let_def)
  qed
qed

lemma timestamps_v2:
  "sorted_wrt js_lt (map timestamp (frames (processVideo_v2 v s))) \<and>
   (\<forall>f\<in>set (frames (processVideo_v2 v s)).
      js_le (Fin 0) (timestamp f) \<and> js_lt (timestamp f) (sanitize_duration (video_duration v)))"
proof -
  obtain d where d: "0 < d" "sanitize_duration (video_duration v) = Fin d"
    using sanitize_duration_pos by blast
  have i2: "js_max (Fin (1 / 10)) (js_div (Fin d) targetFrameCount)
      = Fin (max (1 / 10) (underflow (d / 30)))"
    "0 < max (1 / 10) (underflow (d / 30))"
    by (auto simp: js_max_def targetFrameCount_def max_def)
  show ?thesis
  proof (cases "metadata_loaded v \<and> context_2d v")
    case True
    obtain c where "stamps_below c d (newFrames (sampling_loop MAX_LOOPS_v2 (decoder v) True (Fin d)
        (Fin (max (1 / 10) (underflow (d / 30))))
        (loop_init (plan_start (Fin d)) (created s))))"
      using run_timestamps [OF d(1) i2(2)] by blast
    from stamps_below_bounds [OF this] True show ?thesis
      by (simp add: processVideo_v2_def Let_def d i2)
  next
    case False
    then show ?thesis
      by (auto simp: processVideo_v2_def Let_def)
  qed
qed




section \<open>Progress reports of a run\<close>

lemma js_max_fin: "js_max (Fin a) (Fin b) = Fin (max a b)"
  by (simp add: js_max_def max_def)

lemma js_min_fin: "js_min (Fin a) (Fin b) = Fin (min a b)"
  by (simp add: js_min_def min_def)

lemma time_at_fin: "time_at (Fin c) (Fin i) k = Fin (c + real k * i)"
  by (induction k) (simp_all add: algebra_simps)

lemma spec_progress_fin:
  assumes "d \<noteq> 0" "M \<noteq> 0"
  shows "spec_progress M (Fin d) (Fin c) n =
           Fin (min 99 (of_int \<lfloor>max (underflow (underflow (c / d) * 100))
                                   (underflow (underflow (real n / real M) * 100)) + 1 / 2\<rfloor>))"
  using assms by (simp add: spec_progress_def js_max_fin js_min_fin js_round_def)

lemma spec_progress_mono:
  assumes "0 < d" "0 < M" "c \<le> c'" "n \<le> n'"
  shows "js_le (spec_progress M (Fin d) (Fin c) n) (spec_progress M (Fin d) (Fin c') n')"
proof -
  have "c / d \<le> c' / d"
    using assms(1,3) by (simp add: divide_right_mono)
  then have "underflow (c / d) * 100 \<le> underflow (c' / d) * 100"
    by (simp add: underflow_mono)
  then have t: "underflow (underflow (c / d) * 100) \<le> underflow (underflow (c' / d) * 100)"
    by (rule underflow_mono)
  have "real n / real M \<le> real n' / real M"
    using assms(2,4) by (simp add: divide_right_mono)
  then have "underflow (real n / real M) * 100 \<le> underflow (real n' / real M) * 100"
    by (simp add: underflow_mono)
  then have "underflow (underflow (real n / real M) * 100)
      \<le> underflow (underflow (real n' / real M) * 100)"
    by (rule underflow_mono)
  with t have "max (underflow (underflow (c / d) * 100))
        (underflow (underflow (real n / real M) * 100)) + 1 / 2
      \<le> max (underflow (underflow (c' / d) * 100))
        (underflow (underflow (real n' / real M) * 100)) + 1 / 2"
    by linarith
  then have "\<lfloor>max (underflow (underflow (c / d) * 100))
        (underflow (underflow (real n / real M) * 100)) + 1 / 2\<rfloor>
      \<le> \<lfloor>max (underflow (underflow (c' / d) * 100))
        (underflow (underflow (real n' / real M) * 100)) + 1 / 2\<rfloor>"
    by (rule floor_mono)
  then have "(of_int \<lfloor>max (underflow (underflow (c / d) * 100))
        (underflow (underflow (real n / real M) * 100)) + 1 / 2\<rfloor> :: real)
      \<le> of_int \<lfloor>max (underflow (underflow (c' / d) * 100))
        (underflow (underflow (real n' / real M) * 100)) + 1 / 2\<rfloor>"
    by simp
  then show ?thesis
    using assms(1,2) by (simp add: spec_progress_fin min_le_iff_disj)
qed

lemma spec_progress_range:
  assumes "0 < d" "0 < M" "0 \<le> c"
  shows "js_le (Fin 0) (spec_progress M (Fin d) (Fin c) n)"
    and "js_le (spec_progress M (Fin d) (Fin c) n) (Fin 99)"
proof -
  have "0 \<le> underflow (c / d) * 100"
    using assms(1,3) by (simp add: underflow_nonneg)
  then have "0 \<le> underflow (underflow (c / d) * 100)"
    by (rule underflow_nonneg)
  then have "0 \<le> max (underflow (underflow (c / d) * 100))
      (underflow (underflow (real n / real M) * 100)) + 1 / 2"
    by (simp add: le_max_iff_disj)
  then have "0 \<le> \<lfloor>max (underflow (underflow (c / d) * 100))
      (underflow (underflow (real n / real M) * 100)) + 1 / 2\<rfloor>"
    by simp
  then show "js_le (Fin 0) (spec_progress M (Fin d) (Fin c) n)"
    using assms(1,2) by (simp add: spec_progress_fin)
  show "js_le (spec_progress M (Fin d) (Fin c) n) (Fin 99)"
    using assms(1,2) by (simp add: spec_progress_fin)
qed

lemma step_progress_spec:
  "step_progress M duration t = spec_progress M duration (currentTime t) (Suc (loopCount t))"
  by (simp add: step_progress_def spec_progress_def)

lemma loop_reported_closed:
  "reported (sampling_loop M dec sel duration interval (loop_init start u)) =
     map (\<lambda>k. spec_progress M duration (time_at start interval k) (Suc k))
       [0..<loopCount (sampling_loop M dec sel duration interval (loop_init start u))]"
  by (rule sampling_loop_rule
      [where I = "\<lambda>t. currentTime t = time_at start interval (loopCount t) \<and>
          reported t = map (\<lambda>k. spec_progress M duration (time_at start interval k) (Suc k))
            [0..<loopCount t]"])
    (simp_all add: loop_init_def step_progress_spec)

lemma progress_le_100:
  assumes "0 < d" "0 < M"
  shows "js_le (spec_progress M (Fin d) (Fin c) n) (Fin 100)"
  using assms by (simp add: spec_progress_fin min_le_iff_disj)

lemma progress_sequence_sorted:
  assumes "0 < d" "0 < M" "0 \<le> c" "0 \<le> i"
  shows "sorted_wrt js_le
           (Fin 0 # map (\<lambda>k. spec_progress M (Fin d) (time_at (Fin c) (Fin i) k) (Suc k)) [0..<n]
             @ [Fin 100])"
proof -
  let ?f = "\<lambda>k. spec_progress M (Fin d) (time_at (Fin c) (Fin i) k) (Suc k)"
  have le: "js_le (?f k) (?f k')" if "k < k'" for k k'
  proof -
    from that assms(4) have "c + real k * i \<le> c + real k' * i"
      by (simp add: mult_right_mono)
    with that show ?thesis
      using assms(1,2) by (simp add: time_at_fin spec_progress_mono)
  qed
  have "sorted_wrt (<) [0..<n]"
    by simp
  then have "sorted_wrt (\<lambda>k k'. js_le (?f k) (?f k')) [0..<n]"
    by (rule sorted_wrt_mono_rel [rotated]) (use le in blast)
  moreover have "js_le (Fin 0) (?f k)" "js_le (?f k) (Fin 100)" for k
    using assms by (simp_all add: time_at_fin spec_progress_range(1) progress_le_100)
  ultimately show ?thesis
    by (simp add: sorted_wrt_append sorted_wrt_map)
qed

text \<open>
  C7. A run that reaches the loop reports 0, then in iteration \<open>k + 1\<close> the value
  \<open>max(timeProgress, stepProgress)\<close> rounded and clamped to 99, computed from the
  \<open>currentTime\<close> accumulated so far and the step count \<open>k + 1\<close> with the ceiling 600,
  and 100 at the end. The whole sequence is non-decreasing, and every value before the
  final 100 is at most 99. A run that fails before the loop reports 0 only.
\<close>

theorem progress_reports_of_run:
  assumes "D = sanitize_duration (video_duration v)"
    and "I = plan_interval (framepSecond s) D"
  shows
    "(metadata_loaded v \<and> context_2d v \<longrightarrow>
        (\<exists>n\<le>MAX_LOOPS.
           progress_reports (processVideo v s) =
             progress_reports s @
               Fin 0 # map (\<lambda>k. spec_progress MAX_LOOPS D (time_at (plan_start D) I k) (Suc k)) [0..<n]
                 @ [Fin 100] \<and>
           sorted_wrt js_le
             (Fin 0 # map (\<lambda>k. spec_progress MAX_LOOPS D (time_at (plan_start D) I k) (Suc k)) [0..<n]
                 @ [Fin 100]) \<and>
           (\<forall>k<n. js_le (spec_progress MAX_LOOPS D (time_at (plan_start D) I k) (Suc k)) (Fin 99)))) \<and>
     (\<not> (metadata_loaded v \<and> context_2d v) \<longrightarrow>
        progress_reports (processVideo v s) = progress_reports s @ [Fin 0])"
proof -
  obtain d where d: "0 < d" "D = Fin d"
    using sanitize_duration_pos assms(1) by blast
  obtain i where i: "0 \<le> i" "I = Fin i"
    using plan_interval_nonneg [OF d(1)] assms(2) d(2) by blast
  let ?c = "min (1 / 10) (underflow (d / 10))"
  have c: "0 \<le> ?c"
    using d(1) by (rule plan_start_nonneg)
  have M: "0 < MAX_LOOPS"
    by (simp add: MAX_LOOPS_def)
  let ?l = "sampling_loop MAX_LOOPS (decoder v) False D I (loop_init (plan_start D) (created s))"
  let ?f = "\<lambda>k. spec_progress MAX_LOOPS D (time_at (plan_start D) I k) (Suc k)"
  have failed: "progress_reports (processVideo v s) = progress_reports s @ [Fin 0]"
    if "\<not> (metadata_loaded v \<and> context_2d v)"
    using that by (auto simp: processVideo_def Let_def)
  have run: "progress_reports (processVideo v s) =
      progress_reports s @ Fin 0 # map ?f [0..<loopCount ?l] @ [Fin 100]"
    if "metadata_loaded v \<and> context_2d v"
    using that loop_reported_closed [of MAX_LOOPS "decoder v" False D I "plan_start D" "created s"]
    by (simp add: processVideo_def Let_def assms)
  have n: "loopCount ?l \<le> MAX_LOOPS"
    by (rule loop_init_counts(3))
  have sorted: "sorted_wrt js_le (Fin 0 # map ?f [0..<n] @ [Fin 100])" for n
    using progress_sequence_sorted [OF d(1) M c, of i n] i(1)
    by (simp add: d(2) i(2) plan_start_fin)
  have le99: "js_le (?f k) (Fin 99)" for k
    using spec_progress_range(2) [OF d(1) M, of "?c + real k * i" "Suc k"] c i(1)
    by (simp add: d(2) i(2) plan_start_fin time_at_fin)
  show ?thesis
    using failed run n sorted le99 by blast
qed

theorem progress_reports_of_run_witness:
  "metadata_loaded clip_2s \<and> context_2d clip_2s \<and>
   progress_reports (processVideo clip_2s (fresh_state (Fin 1))) = [Fin 0, Fin 5, Fin 55, Fin 100] \<and>
   spec_progress MAX_LOOPS (Fin 2) (Fin (1 / 10)) 1 = Fin 5 \<and>
   spec_progress MAX_LOOPS (Fin 2) (Fin (11 / 10)) 2 = Fin 55 \<and>
   sorted_wrt js_le [Fin 0, Fin 5, Fin 55, Fin 100]"
proof -
  have d: "Fin 2 = sanitize_duration (video_duration clip_2s)"
    by (simp add: clip_2s_def sanitize_duration_def)
  have i: "Fin 1 = plan_interval (framepSecond (fresh_state (Fin 1))) (Fin 2)"
    by (simp add: fresh_state_def plan_interval_truthy underflow_id)
  have v: "metadata_loaded clip_2s \<and> context_2d clip_2s"
    by (simp add: clip_2s_def)
  have p: "spec_progress MAX_LOOPS (Fin 2) (Fin (1 / 10)) 1 = Fin 5"
    "spec_progress MAX_LOOPS (Fin 2) (Fin (11 / 10)) 2 = Fin 55"
    by (simp_all add: spec_progress_def MAX_LOOPS_def js_max_def js_min_def js_round_def
        underflow_id)
  show ?thesis
    using progress_reports_of_run [OF d i] v p
    by (simp add: run_2s_1fps)
qed

section \<open>The run of \<open>src/index.tsx\<close>\<close>

text \<open>
  The loop of \<open>src/index.tsx\<close> has the time guard only. When every wait for \<open>seeked\<close>
  ends, it still returns after at most 30 iterations, because the interval is at least a
  thirtieth of the duration; an infinite duration gives one iteration, a negative one
  none. When a wait never ends, the loop never returns.
\<close>

lemma index_loop_bounded:
  assumes "0 < i" "d \<le> c + real k * i" "currentTime s = Fin c" "\<forall>n. dec n \<noteq> None"
  shows "\<exists>r. sampling_loop_index dec (Fin d) (Fin i) s = Some r \<and>
              loopCount r \<le> loopCount s + k \<and>
              length (newFrames r) \<le> length (newFrames s) + k"
  using assms(2,3)
proof (induction k arbitrary: s c)
  case 0
  then show ?case
    by (subst sampling_loop_index.simps) simp
next
  case (Suc k)
  show ?case
  proof (cases "c < d")
    case False
    with Suc.prems show ?thesis
      by (subst sampling_loop_index.simps) simp
  next
    case True
    have next_c: "d \<le> (c + i) + real k * i"
      using Suc.prems(1) by (simp add: algebra_simps)
    obtain o' where o': "dec (Suc (loopCount s)) = Some o'"
      using assms(4) by auto
    show ?thesis
    proof (cases o')
      case Thrown
      with True o' Suc.prems(2) show ?thesis
        by (subst sampling_loop_index.simps) (simp add: Let_def)
    next
      case NoBlob
      let ?s' = "s\<lparr>loopCount := Suc (loopCount s),
            reported := reported s @
              [js_min (Fin 99) (js_round (js_mul (js_div (currentTime s) (Fin d)) (Fin 100)))],
            currentTime := js_add (currentTime s) (Fin i)\<rparr>"
      have "currentTime ?s' = Fin (c + i)"
        using Suc.prems(2) by simp
      from Suc.IH [OF next_c this] obtain r where
        "sampling_loop_index dec (Fin d) (Fin i) ?s' = Some r"
        "loopCount r \<le> loopCount ?s' + k" "length (newFrames r) \<le> length (newFrames ?s') + k"
        by blast
      with True o' NoBlob Suc.prems(2) show ?thesis
        by (subst sampling_loop_index.simps) (simp add: Let_def)
    next
      case (Captured b)
      let ?s' = "s\<lparr>loopCount := Suc (loopCount s),
            reported := reported s @
              [js_min (Fin 99) (js_round (js_mul (js_div (currentTime s) (Fin d)) (Fin 100)))],
            newFrames := newFrames s @
              [\<lparr>frame_id = ''frame-'' @ toFixed2 (currentTime s), url = next_url s, blob = b,
                selected = True, timestamp = currentTime s\<rparr>],
            next_url := Suc (next_url s),
            currentTime := js_add (currentTime s) (Fin i)\<rparr>"
      have "currentTime ?s' = Fin (c + i)"
        using Suc.prems(2) by simp
      from Suc.IH [OF next_c this] obtain r where
        "sampling_loop_index dec (Fin d) (Fin i) ?s' = Some r"
        "loopCount r \<le> loopCount ?s' + k" "length (newFrames r) \<le> length (newFrames ?s') + k"
        by blast
      with True o' Captured Suc.prems(2) show ?thesis
        by (subst sampling_loop_index.simps) (simp add: Let_def)
    qed
  qed
qed


lemma index_loop_one_step:
  assumes "js_lt c d" "\<not> js_lt (js_add c i) d" "dec (Suc 0) \<noteq> None"
  shows "\<exists>r. sampling_loop_index dec d i (loop_init c u) = Some r \<and>
              loopCount r \<le> 1 \<and> length (newFrames r) \<le> 1"
proof -
  obtain o' where o': "dec (Suc 0) = Some o'"
    using assms(3) by auto
  show ?thesis
    using assms(1,2) o'
    apply (subst sampling_loop_index.simps)
    apply (cases o')
      apply (simp_all add: loop_init_def Let_def)
     apply (subst sampling_loop_index.simps, simp)+
    done
qed

lemma index_loop_no_step:
  assumes "\<not> js_lt c d"
  shows "sampling_loop_index dec d i (loop_init c u) = Some (loop_init c u)"
  using assms by (subst sampling_loop_index.simps) (simp add: loop_init_def)

lemma index_plan_cases:
  "(\<exists>d. 0 < d \<and> duration_index x = Fin d \<and>
        interval_index (Fin d) = Fin (max (1 / 2) (underflow (d / 30))) \<and>
        start_index (Fin d) = Fin (min (1 / 2) (underflow (d / 2)))) \<or>
   (duration_index x = PosInf \<and> interval_index PosInf = PosInf \<and> start_index PosInf = Fin (1 / 2)) \<or>
   \<not> js_lt (start_index (duration_index x)) (duration_index x)"
proof (cases x)
  case (Fin a)
  consider "a = 0" | "0 < a" | "a < 0"
    by linarith
  then show ?thesis
  proof cases
    case 1
    with Fin have "duration_index x = Fin 1"
      by (simp add: duration_index_def js_or_def)
    then show ?thesis
      by (simp add: interval_index_def start_index_def js_max_fin js_min_fin targetFrameCount_def)
  next
    case 2
    with Fin have "duration_index x = Fin a"
      by (simp add: duration_index_def js_or_def)
    with 2 show ?thesis
      by (simp add: interval_index_def start_index_def js_max_fin js_min_fin targetFrameCount_def)
  next
    case 3
    then have "a / 2 \<le> 0"
      by simp
    then have "underflow (a / 2) \<le> 0"
      by (rule underflow_nonpos)
    moreover have "a / 2 \<le> underflow (a / 2)"
      using 3 by (simp add: underflow_def)
    ultimately have "\<not> min (1 / 2) (underflow (a / 2)) < a"
      using 3 by (simp add: min_def)
    with 3 Fin show ?thesis
      by (simp add: duration_index_def js_or_def start_index_def js_min_fin)
  qed
qed (simp_all add: duration_index_def js_or_def interval_index_def start_index_def js_max_def
     js_min_def targetFrameCount_def)

lemma index_run_bounded:
  assumes "\<forall>n. decoder v n \<noteq> None"
  shows "\<exists>r. processVideo_index v s = Some r \<and> length (frames r) \<le> 30"
proof -
  let ?D = "duration_index (video_duration v)"
  have loop: "\<exists>l. sampling_loop_index (decoder v) ?D (interval_index ?D)
      (loop_init (start_index ?D) u) = Some l \<and> length (newFrames l) \<le> 30" for u
    using index_plan_cases [of "video_duration v"]
  proof (elim disjE exE conjE)
    fix d :: real
    let ?i = "max (1 / 2) (underflow (d / 30))"
    let ?c = "min (1 / 2) (underflow (d / 2))"
    assume d: "0 < d" "?D = Fin d" "interval_index (Fin d) = Fin ?i" "start_index (Fin d) = Fin ?c"
    have "d / 30 \<le> ?i"
      by (rule le_max_half_underflow)
    then have "d \<le> real 30 * ?i"
      by linarith
    moreover have "0 \<le> ?c"
      using d(1) by (simp add: underflow_nonneg)
    ultimately have "d \<le> ?c + real 30 * ?i"
      by linarith
    moreover have "0 < ?i"
      by (simp add: less_max_iff_disj)
    ultimately show ?thesis
      using index_loop_bounded [of ?i d ?c 30 "loop_init (Fin ?c) u" "decoder v"] assms d
      by (auto simp: loop_init_def)
  next
    assume "?D = PosInf" "interval_index PosInf = PosInf" "start_index PosInf = Fin (1 / 2)"
    then show ?thesis
      using index_loop_one_step [of "Fin (1 / 2)" PosInf PosInf "decoder v" u] assms
      by auto
  next
    assume "\<not> js_lt (start_index ?D) ?D"
    from index_loop_no_step [OF this] show ?thesis
      by (simp add: loop_init_def)
  qed
  show ?thesis
  proof (cases "metadata_loaded v \<and> context_2d v")
    case False
    then show ?thesis
      by (auto simp: processVideo_index_def setFrames_index_def Let_def)
  next
    case True
    obtain l where "sampling_loop_index (decoder v) ?D (interval_index ?D)
      (loop_init (start_index ?D) (created (setFrames_index []
         (s\<lparr>isProcessing := True, progress_reports := progress_reports s @ [Fin 0]\<rparr>)))) = Some l"
      "length (newFrames l) \<le> 30"
      using loop by blast
    with True show ?thesis
      by (simp add: processVideo_index_def setFrames_index_def Let_def)
  qed
qed

lemma index_plan_2s:
  "duration_index (Fin 2) = Fin 2"
  "interval_index (Fin 2) = Fin (1 / 2)"
  "start_index (Fin 2) = Fin (1 / 2)"
  by (simp_all add: duration_index_def js_or_def interval_index_def start_index_def js_max_fin
      js_min_fin targetFrameCount_def underflow_id)

lemma index_run_2s:
  "processVideo_index clip_2s_index (fresh_state (Fin 1)) = Some three_frames_index"
  by (simp add: processVideo_index_def setFrames_index_def Let_def clip_2s_index_def index_plan_2s
      fresh_state_def three_frames_index_def loop_init_def sampling_loop_index.simps
      js_min_def js_round_def toFixed2_def toFixed2_nonneg_def padStart_def digit_char_def
      underflow_id)

text \<open>
  The run of \<open>src/index.tsx\<close> does not return when a seek never signals \<open>seeked\<close>: the loop
  has no step counter and the wait has no timeout.
\<close>

lemma index_run_stalls:
  assumes "metadata_loaded v" "context_2d v" "video_duration v = Fin 2"
    "decoder v (Suc 0) = None"
  shows "processVideo_index v s = None"
proof -
  have "sampling_loop_index (decoder v) (Fin 2) (Fin (1 / 2)) (loop_init (Fin (1 / 2)) u) = None"
    for u
    using assms(4) by (subst sampling_loop_index.simps) (simp add: loop_init_def)
  then show ?thesis
    using assms(1-3)
    by (simp add: processVideo_index_def setFrames_index_def Let_def index_plan_2s)
qed

text \<open>
  C1 at the failing input. The loop of \<open>src/index.tsx\<close> has the time guard
  \<open>currentTime < duration\<close> only: no step counter, and a wait for \<open>seeked\<close> without a
  timeout. On a two second video whose seeks never signal \<open>seeked\<close> the run does not return.
  The loop of \<open>src/unnamed/part_000\<close> ends within its ceiling on every input
  (\<open>sampling_loop_halts_within_ceiling\<close>).
\<close>

theorem index_run_never_returns:
  "processVideo_index stalled_clip (fresh_state (Fin 1)) = None"
proof -
  have "sampling_loop_index (\<lambda>n. None) (Fin 2) (Fin (1 / 2)) (loop_init (Fin (1 / 2)) u) = None"
    for u
    by (subst sampling_loop_index.simps) (simp add: loop_init_def)
  then show ?thesis
    by (simp add: processVideo_index_def setFrames_index_def Let_def index_plan_2s stalled_clip_def)
qed

section \<open>Names of the archive entries\<close>

lemma handleDownload_entries:
  assumes "filter selected (frames s) = fs" "fs \<noteq> []"
  shows "handleDownload True s = Inr (map (\<lambda>(i, frame). (entry_name i, blob frame)) (enumerate 0 fs))"
  using assms by (simp add: handleDownload_def)

lemma entry_nth:
  "i < length fs \<Longrightarrow>
   fst (map (\<lambda>(i, frame). (entry_name i, blob frame)) (enumerate 0 fs) ! i) = entry_name i"
  by (simp add: nth_enumerate_eq)

lemma entry_name_99: "entry_name 98 = ''portfolio_shot_99.jpg''"
  by (simp add: entry_name_def padStart_def digit_char_def)

lemma entry_name_100: "entry_name 99 = ''portfolio_shot_100.jpg''"
  by (simp add: entry_name_def padStart_def digit_char_def)

lemma toString_one_digit: "n < 10 \<Longrightarrow> toString n = [digit_char n]"
  by (subst toString.simps) simp

lemma toString_two_digits:
  "10 \<le> n \<Longrightarrow> n < 100 \<Longrightarrow> toString n = [digit_char (n div 10), digit_char (n mod 10)]"
  by (subst toString.simps) (simp add: toString_one_digit)

lemma padStart_below_100:
  assumes "n < 100"
  shows "padStart 2 (CHR ''0'') (toString n) = [digit_char (n div 10), digit_char (n mod 10)]"
proof (cases "n < 10")
  case True
  then show ?thesis
    by (simp add: toString_one_digit padStart_def digit_char_def)
next
  case False
  with assms show ?thesis
    by (simp add: toString_two_digits padStart_def)
qed

lemma digit_char_code: "d < 10 \<Longrightarrow> (of_char (digit_char d) :: nat) = 48 + d"
proof -
  assume "d < 10"
  then consider "d = 0" | "d = 1" | "d = 2" | "d = 3" | "d = 4" | "d = 5" | "d = 6" | "d = 7"
    | "d = 8" | "d = 9"
    by force
  then show ?thesis
    by cases (simp_all add: digit_char_def)
qed

lemma lex_less_append_same: "lex_less (p @ a) (p @ b) = lex_less a b"
  by (induction p) simp_all

lemma lex_less_two_digits:
  assumes "a1 < 10" "a0 < 10" "b1 < 10" "b0 < 10"
  shows "lex_less (digit_char a1 # digit_char a0 # t) (digit_char b1 # digit_char b0 # t) =
           (10 * a1 + a0 < 10 * b1 + b0 \<or> (a1 = b1 \<and> a0 = b0 \<and> lex_less t t))"
  using assms by (auto simp: digit_char_code)

lemma lex_less_irrefl: "\<not> lex_less t t"
  by (induction t) simp_all

lemma entry_names_sorted_below_100:
  assumes "i < j" "j < 99"
  shows "lex_less (entry_name i) (entry_name j)"
proof -
  have e: "entry_name k =
      ''portfolio_shot_'' @ (digit_char ((k + 1) div 10) # digit_char ((k + 1) mod 10) # ''.jpg'')"
    if "k < 99" for k
    using that padStart_below_100 [of "k + 1"] by (simp add: entry_name_def)
  have "10 * ((i + 1) div 10) + (i + 1) mod 10 < 10 * ((j + 1) div 10) + (j + 1) mod 10"
    using assms(1) by simp
  moreover have "(i + 1) div 10 < 10" "(j + 1) div 10 < 10"
    using assms by simp_all
  ultimately have "lex_less (digit_char ((i + 1) div 10) # digit_char ((i + 1) mod 10) # ''.jpg'')
      (digit_char ((j + 1) div 10) # digit_char ((j + 1) mod 10) # ''.jpg'')"
    by (subst lex_less_two_digits) simp_all
  then show ?thesis
    using assms by (simp only: e lex_less_append_same less_trans [OF assms])
qed

text \<open>
  C8 at the failing input. With 100 selected frames, which the ceiling of 600 admits, the
  entries 99 and 100 are named \<open>portfolio_shot_99.jpg\<close> and \<open>portfolio_shot_100.jpg\<close>, and
  the latter sorts before the former. Up to 99 entries the names do sort by index
  (\<open>entry_names_sorted_below_100\<close>).
\<close>

theorem names_out_of_order_at_100:
  "\<exists>es. handleDownload True (gallery 100) = Inr es \<and> length es = 100 \<and>
      fst (es ! 98) = ''portfolio_shot_99.jpg'' \<and>
      fst (es ! 99) = ''portfolio_shot_100.jpg'' \<and>
      lex_less (fst (es ! 99)) (fst (es ! 98))"
proof -
  let ?fs = "frames (gallery 100)"
  have sel: "filter selected ?fs = ?fs"
    by (simp add: gallery_def filter_map o_def)
  have len: "length ?fs = 100"
    by (simp add: gallery_def)
  then have ne: "?fs \<noteq> []"
    by auto
  let ?es = "map (\<lambda>(i, frame). (entry_name i, blob frame)) (enumerate 0 ?fs)"
  have "handleDownload True (gallery 100) = Inr ?es"
    using handleDownload_entries [OF sel ne] .
  moreover have "length ?es = 100"
    using len by simp
  moreover have "fst (?es ! 98) = ''portfolio_shot_99.jpg''" "fst (?es ! 99) = ''portfolio_shot_100.jpg''"
    using entry_nth [of 98 ?fs] entry_nth [of 99 ?fs] len
    by (simp_all only: entry_name_99 entry_name_100)
  moreover have "lex_less ''portfolio_shot_100.jpg'' ''portfolio_shot_99.jpg''"
    by simp
  ultimately show ?thesis
    by (intro exI [of _ ?es]) simp
qed

section \<open>Object URLs of the frames\<close>

lemma loop_frames_prefix:
  "\<exists>rest. newFrames (sampling_loop M dec sel duration interval s) = newFrames s @ rest"
  by (rule sampling_loop_rule [where I = "\<lambda>t. \<exists>rest. newFrames t = newFrames s @ rest"]) auto

lemma loop_urls:
  assumes "map url (newFrames s) = [u..<next_url s]" "u \<le> next_url s"
  shows "map url (newFrames (sampling_loop M dec sel duration interval s)) =
           [u..<next_url (sampling_loop M dec sel duration interval s)] \<and>
         u \<le> next_url (sampling_loop M dec sel duration interval s)"
  by (rule sampling_loop_rule
        [where I = "\<lambda>t. map url (newFrames t) = [u..<next_url t] \<and> u \<le> next_url t"])
     (use assms in \<open>auto simp: step_frame_def\<close>)

lemma run_urls:
  assumes "metadata_loaded v" "context_2d v"
  shows "map url (frames (processVideo v s)) = [created s..<created (processVideo v s)]"
    and "created s \<le> created (processVideo v s)"
  using assms loop_urls [of "loop_init c (created s)" "created s" for c]
  by (simp_all add: processVideo_def Let_def loop_init_def)

lemma run_2s_240fps_steps:
  "sampling_loop MAX_LOOPS (\<lambda>n. Captured []) False (Fin 2) (Fin (1 / 240)) (loop_init (Fin (1 / 10)) 0) =
   sampling_loop MAX_LOOPS (\<lambda>n. Captured []) False (Fin 2) (Fin (1 / 240))
     \<lparr>currentTime = Fin (13 / 120), loopCount = Suc (Suc 0), newFrames = [frame_a, frame_b],
      reported = [Fin 5, Fin 5], next_url = Suc (Suc 0), thrown = False\<rparr>"
  apply (subst sampling_loop.simps)
  apply (simp add: run_eval)
  apply (subst sampling_loop.simps)
  apply (simp add: run_eval frame_a_def frame_b_def)
  done

lemma run_2s_240fps:
  "\<exists>rest. frames (processVideo clip_2s (fresh_state (Fin 240))) = frame_a # frame_b # rest"
proof -
  have "plan_interval (Fin 240) (Fin 2) = Fin (1 / 240)"
    by (simp add: plan_interval_truthy underflow_id)
  moreover have "plan_start (Fin 2) = Fin (1 / 10)"
    by (simp add: plan_start_fin underflow_id)
  moreover have "sanitize_duration (Fin 2) = Fin 2"
    by (simp add: sanitize_duration_def)
  ultimately have "frames (processVideo clip_2s (fresh_state (Fin 240))) =
      newFrames (sampling_loop MAX_LOOPS (\<lambda>n. Captured []) False (Fin 2) (Fin (1 / 240))
        (loop_init (Fin (1 / 10)) 0))"
    by (simp add: processVideo_def Let_def clip_2s_def fresh_state_def)
  then show ?thesis
    using loop_frames_prefix [of MAX_LOOPS "\<lambda>n. Captured []" False "Fin 2" "Fin (1 / 240)"
        "\<lparr>currentTime = Fin (13 / 120), loopCount = Suc (Suc 0), newFrames = [frame_a, frame_b],
          reported = [Fin 5, Fin 5], next_url = Suc (Suc 0), thrown = False\<rparr>"]
    by (simp add: run_2s_240fps_steps)
qed

lemma deleteFrame_revoked:
  "revoked (deleteFrame i s) =
     revoked s @ (case find (\<lambda>f. frame_id f = i) (frames s) of Some f \<Rightarrow> [url f] | None \<Rightarrow> [])"
  by (simp add: deleteFrame_def Let_def handleRerun_def split: option.splits)

lemma deleteFrame_frames:
  "frames (deleteFrame i s) = filter (\<lambda>f. frame_id f \<noteq> i) (frames s)"
  by (simp add: deleteFrame_def Let_def handleRerun_def split: option.splits)

lemma deleteFrame_created: "created (deleteFrame i s) = created s"
  by (simp add: deleteFrame_def Let_def handleRerun_def split: option.splits)


lemma find_frame_id:
  "find (\<lambda>f. frame_id f = i) xs = Some f \<Longrightarrow> f \<in> set xs \<and> frame_id f = i"
  by (induction xs) (auto split: if_splits)

lemma find_frame_id_None:
  "find (\<lambda>f. frame_id f = i) xs = None \<Longrightarrow> filter (\<lambda>f. frame_id f \<noteq> i) xs = xs"
  by (induction xs) (auto split: if_splits)

lemma filter_distinct_ids:
  assumes "distinct (map frame_id xs)" "f \<in> set xs"
  shows "set (filter (\<lambda>g. frame_id g \<noteq> frame_id f) xs) = set xs - {f}"
    and "length (filter (\<lambda>g. frame_id g \<noteq> frame_id f) xs) = length xs - 1"
proof -
  have inj: "inj_on frame_id (set xs)"
    using assms(1) by (simp add: distinct_map)
  then show "set (filter (\<lambda>g. frame_id g \<noteq> frame_id f) xs) = set xs - {f}"
    using assms(2) by (auto dest: inj_onD)
  have "filter (\<lambda>g. frame_id g = frame_id f) xs = [f]"
    using assms
  proof (induction xs)
    case Nil
    then show ?case by simp
  next
    case (Cons x xs)
    show ?case
    proof (cases "x = f")
      case True
      with Cons.prems(1) have "\<forall>g\<in>set xs. frame_id g \<noteq> frame_id f"
        by (metis distinct.simps(2) image_eqI list.simps(9) set_map)
      then have "filter (\<lambda>g. frame_id g = frame_id f) xs = []"
        by (simp add: filter_empty_conv)
      with True show ?thesis by simp
    next
      case False
      with Cons.prems have "f \<in> set xs" "frame_id x \<noteq> frame_id f"
        by auto
      with Cons show ?thesis by simp
    qed
  qed
  then have "length (filter (\<lambda>g. frame_id g = frame_id f) xs) = 1"
    by simp
  moreover have "length xs = length (filter (\<lambda>g. frame_id g = frame_id f) xs)
      + length (filter (\<lambda>g. \<not> frame_id g = frame_id f) xs)"
    by (rule sum_length_filter_compl [symmetric])
  ultimately show "length (filter (\<lambda>g. frame_id g \<noteq> frame_id f) xs) = length xs - 1"
    by simp
qed

lemma findIndex_distinct_ids:
  assumes "distinct (map frame_id xs)" "k < length xs"
  shows "findIndex (\<lambda>f. frame_id f = frame_id (xs ! k)) xs = int k"
  using assms
proof (induction xs arbitrary: k)
  case Nil
  then show ?case by simp
next
  case (Cons x xs)
  show ?case
  proof (cases k)
    case 0
    then show ?thesis by simp
  next
    case (Suc k')
    with Cons.prems have k': "k' < length xs" and d: "distinct (map frame_id xs)"
      and "frame_id x \<notin> frame_id ` set xs"
      by auto
    then have "frame_id x \<noteq> frame_id (xs ! k')"
      by (metis image_eqI nth_mem)
    with Cons.IH [OF d k'] Suc show ?thesis
      by (simp add: Let_def)
  qed
qed

lemma find_distinct_ids:
  assumes "distinct (map frame_id xs)" "k < length xs"
  shows "find (\<lambda>f. frame_id f = frame_id (xs ! k)) xs = Some (xs ! k)"
  using assms
proof (induction xs arbitrary: k)
  case Nil
  then show ?case by simp
next
  case (Cons x xs)
  show ?case
  proof (cases k)
    case 0
    then show ?thesis by simp
  next
    case (Suc k')
    with Cons.prems have k': "k' < length xs" and d: "distinct (map frame_id xs)"
      and "frame_id x \<notin> frame_id ` set xs"
      by auto
    then have "frame_id x \<noteq> frame_id (xs ! k')"
      by (metis image_eqI nth_mem)
    with Cons.IH [OF d k'] Suc show ?thesis
      by simp
  qed
qed

lemma successor_at:
  assumes "k < length xs"
  shows "obj_or (js_nth xs (int k + 1)) (js_nth xs (int k - 1)) =
           (if k + 1 < length xs then Some (xs ! (k + 1))
            else if 0 < k then Some (xs ! (k - 1)) else None)"
  using assms by (auto simp: obj_or_def js_nth_def nat_add_distrib nat_diff_distrib')

lemma deleteFrame_distinct_ids:
  assumes "distinct (map frame_id (frames s))" "k < length (frames s)"
    and "frame_id (frames s ! k) = i"
  shows "length (frames (deleteFrame i s)) = length (frames s) - 1"
    and "revoked (deleteFrame i s) = revoked s @ [url (frames s ! k)]"
    and "1 < length (frames s) \<Longrightarrow> expandedFrame s = Some e \<Longrightarrow> frame_id e = i \<Longrightarrow>
           expandedFrame (deleteFrame i s) =
             (if k + 1 < length (frames s) then Some (frames s ! (k + 1))
              else Some (frames s ! (k - 1)))"
    and "length (frames s) = 1 \<Longrightarrow>
           frames (deleteFrame i s) = [] \<and> expandedFrame (deleteFrame i s) = None \<and>
           alerts (deleteFrame i s) = alerts s @ [WarnBadVideo]"
proof -
  have mem: "frames s ! k \<in> set (frames s)"
    using assms(2) by simp
  have len: "length (filter (\<lambda>g. frame_id g \<noteq> i) (frames s)) = length (frames s) - 1"
    using filter_distinct_ids(2) [OF assms(1) mem] assms(3) by simp
  have fnd: "find (\<lambda>f. frame_id f = i) (frames s) = Some (frames s ! k)"
    using find_distinct_ids [OF assms(1,2)] assms(3) by simp
  have idx: "findIndex (\<lambda>f. frame_id f = i) (frames s) = int k"
    using findIndex_distinct_ids [OF assms(1,2)] assms(3) by simp
  show "length (frames (deleteFrame i s)) = length (frames s) - 1"
    using len by (simp add: deleteFrame_frames)
  show "revoked (deleteFrame i s) = revoked s @ [url (frames s ! k)]"
    using fnd by (simp add: deleteFrame_revoked)
  show "expandedFrame (deleteFrame i s) =
      (if k + 1 < length (frames s) then Some (frames s ! (k + 1)) else Some (frames s ! (k - 1)))"
    if "1 < length (frames s)" "expandedFrame s = Some e" "frame_id e = i"
    using that len fnd idx successor_at [OF assms(2)] assms(2)
    by (auto simp: deleteFrame_def Let_def)
  show "frames (deleteFrame i s) = [] \<and> expandedFrame (deleteFrame i s) = None \<and>
      alerts (deleteFrame i s) = alerts s @ [WarnBadVideo]"
    if "length (frames s) = 1"
    using that len fnd by (simp add: deleteFrame_def Let_def handleRerun_def)
qed

lemma handleRerun_handles_ok:
  assumes "handles_ok s"
  shows "handles_ok (handleRerun s)" and "live_handles (handleRerun s) = {}"
  using assms by (auto simp: handles_ok_def handleRerun_def live_handles_def)

lemma handles_ok_cong:
  assumes "map url (frames s') = map url (frames s)" "revoked s' = revoked s"
    "created s' = created s"
  shows "handles_ok s' = handles_ok s"
proof -
  have "url ` set (frames s') = url ` set (frames s)"
    using assms(1) by (metis list.set_map)
  with assms show ?thesis
    by (simp add: handles_ok_def live_handles_def)
qed

lemma toggleFrameSelection_handles_ok:
  "handles_ok (toggleFrameSelection i s) = handles_ok s"
  by (rule handles_ok_cong) (simp_all add: toggleFrameSelection_def o_def if_distrib cong: if_cong)

lemma selectAll_handles_ok: "handles_ok (selectAll b s) = handles_ok s"
  by (rule handles_ok_cong) (simp_all add: selectAll_def o_def)

lemma deleteFrame_handles_ok:
  assumes "handles_ok s" "distinct (map frame_id (frames s))"
  shows "handles_ok (deleteFrame i s)"
proof (cases "find (\<lambda>f. frame_id f = i) (frames s)")
  case None
  with assms(1) show ?thesis
    by (simp add: handles_ok_def live_handles_def deleteFrame_frames deleteFrame_revoked
        deleteFrame_created find_frame_id_None)
next
  case (Some f)
  then have f: "f \<in> set (frames s)" "frame_id f = i"
    using find_frame_id by blast+
  have rest: "set (filter (\<lambda>g. frame_id g \<noteq> i) (frames s)) = set (frames s) - {f}"
    using filter_distinct_ids(1) [OF assms(2) f(1)] f(2) by simp
  have inj: "inj_on url (set (frames s))"
    using assms(1) by (simp add: handles_ok_def distinct_map)
  have img: "url ` (set (frames s) - {f}) = url ` set (frames s) - {url f}"
    using inj f(1) by (auto dest: inj_onD)
  have live: "url f \<in> live_handles s"
    using assms(1) f(1) by (auto simp: handles_ok_def)
  show ?thesis
    using assms(1) Some rest img live
    by (auto simp: handles_ok_def live_handles_def deleteFrame_frames deleteFrame_revoked
        deleteFrame_created distinct_map_filter)
qed

lemma processVideo_handles_ok:
  assumes "handles_ok s" "frames s = []"
  shows "handles_ok (processVideo v s)"
proof (cases "metadata_loaded v \<and> context_2d v")
  case False
  with assms show ?thesis
    by (auto simp: processVideo_def Let_def handles_ok_def live_handles_def)
next
  case True
  then have u: "map url (frames (processVideo v s)) = [created s..<created (processVideo v s)]"
    and "created s \<le> created (processVideo v s)"
    using run_urls by blast+
  have r: "revoked (processVideo v s) = revoked s"
    by (simp add: processVideo_def Let_def)
  note \<open>created s \<le> created (processVideo v s)\<close>
  moreover have "{h. h < created s} \<subseteq> set (revoked s)"
    using assms by (auto simp: handles_ok_def live_handles_def)
  moreover have "url ` set (frames (processVideo v s)) = {created s..<created (processVideo v s)}"
    using u by (metis list.set_map set_upt)
  moreover have "distinct (map url (frames (processVideo v s)))"
    using u by simp
  ultimately show ?thesis
    using assms(1) r by (auto simp: handles_ok_def live_handles_def)
qed

text \<open>
  C9 at the failing input. The run at 240 frames per second on a two second video starts
  with two frames of the id \<open>frame-0.10\<close>. Deleting that id removes both (and any later
  frame of that id) and revokes the object URL of the first one only. With pairwise
  different ids the deletion removes one frame, revokes one URL and picks the successor as
  described (\<open>deleteFrame_distinct_ids\<close>).
\<close>

theorem deleteFrame_removes_colliding_frames:
  "\<exists>rest. frames (processVideo clip_2s (fresh_state (Fin 240))) = frame_a # frame_b # rest \<and>
      frame_id frame_a = ''frame-0.10'' \<and> frame_id frame_b = ''frame-0.10'' \<and>
      length (frames (deleteFrame ''frame-0.10'' (processVideo clip_2s (fresh_state (Fin 240)))))
        \<le> length rest \<and>
      revoked (deleteFrame ''frame-0.10'' (processVideo clip_2s (fresh_state (Fin 240)))) = [url frame_a]"
proof -
  obtain rest where r: "frames (processVideo clip_2s (fresh_state (Fin 240))) = frame_a # frame_b # rest"
    using run_2s_240fps by blast
  have "revoked (processVideo clip_2s (fresh_state (Fin 240))) = []"
    by (simp add: processVideo_def Let_def fresh_state_def)
  then show ?thesis
    using r by (simp add: deleteFrame_frames deleteFrame_revoked frame_a_def frame_b_def)
qed

text \<open>
  C4 at the failing input. After that deletion the object URL 1, created for the second
  frame, is still live although no frame of the run holds it: the frame left the run and
  its handle was not released. With pairwise different ids the handlers keep
  \<open>handles_ok\<close> (\<open>processVideo_handles_ok\<close>, \<open>deleteFrame_handles_ok\<close>,
  \<open>handleRerun_handles_ok\<close>, \<open>toggleFrameSelection_handles_ok\<close>, \<open>selectAll_handles_ok\<close>).
\<close>

theorem deleteFrame_leaks_handle:
  "1 \<in> live_handles (deleteFrame ''frame-0.10'' (processVideo clip_2s (fresh_state (Fin 240)))) \<and>
   1 \<notin> url ` set (frames (deleteFrame ''frame-0.10'' (processVideo clip_2s (fresh_state (Fin 240)))))"
proof -
  let ?s = "processVideo clip_2s (fresh_state (Fin 240))"
  obtain rest where r: "frames ?s = frame_a # frame_b # rest"
    using run_2s_240fps by blast
  have u: "map url (frames ?s) = [0..<created ?s]"
    using run_urls [of clip_2s "fresh_state (Fin 240)"] by (simp add: clip_2s_def fresh_state_def)
  then have "length (frames ?s) = created ?s"
    by (metis length_map length_upt minus_nat.diff_0)
  with r have c: "2 \<le> created ?s"
    by simp
  have "distinct (map url (frames ?s))"
    using u by simp
  with r have "url frame_b \<notin> url ` set rest"
    by auto
  then have "1 \<notin> url ` set (filter (\<lambda>f. frame_id f \<noteq> ''frame-0.10'') rest)"
    by (auto simp: frame_b_def)
  moreover have "revoked ?s = []"
    by (simp add: processVideo_def Let_def fresh_state_def)
  ultimately show ?thesis
    using r c
    by (simp add: live_handles_def deleteFrame_frames deleteFrame_revoked deleteFrame_created
        frame_a_def frame_b_def)
qed

end
